theory Spec2Isabelle
  imports Main "HOL-Library.Monad_Syntax" "HOL-Library.Mapping" "HOL-Library.AList_Mapping"
begin

section \<open>Memory model\<close>

text \<open>
  The cache of \<^verbatim>\<open>internal/lfu/lfu.go\<close> is a doubly linked list of buckets
  (\<^verbatim>\<open>sameFreqContainer\<close>), each holding a doubly linked list of entries
  (\<^verbatim>\<open>cacheData\<close>), plus a Go map from keys to entry nodes. The nodes are shared
  between the lists and the map through pointers, so the model keeps an explicit
  store: a pointer is \<open>None\<close> (Go's \<^verbatim>\<open>nil\<close>) or \<open>Some a\<close> for a cell \<open>a\<close> of an
  arena, and \<^verbatim>\<open>new\<close> appends a cell to the arena. Cells are never freed (Go is
  garbage collected; a node that is unlinked simply stays behind, unreachable).

  A function that can panic returns an \<open>option\<close>: \<open>None\<close> means that the call does not
  return normally. The only panics of the cache operations are nil pointer
  dereferences; the only loop whose termination depends on the shape of the heap
  (the eviction scan, and the two loops of the iterator) is modelled by
  \<^theory_text>\<open>partial_function (option)\<close>, where \<open>None\<close> also stands for not returning.

  Go's \<^verbatim>\<open>int\<close> is modelled by \<open>int\<close>: a frequency grows by one per access, and the
  capacity is only compared with the size of the map.
\<close>

type_synonym addr = nat
type_synonym ptr = "addr option"

record 'd linkedListNode =
  data :: 'd
  "next" :: ptr
  prev :: ptr

record linkedList =
  head :: ptr
  tail :: ptr

type_synonym 'd heap = "'d linkedListNode list"

text \<open>Following a pointer: \<^verbatim>\<open>nil\<close> panics. (A pointer outside the arena does not
  exist in Go; the model treats it like \<^verbatim>\<open>nil\<close>.)\<close>

definition deref :: "'d heap \<Rightarrow> ptr \<Rightarrow> addr option" where
  "deref h p = (case p of None \<Rightarrow> None | Some a \<Rightarrow> if a < length h then Some a else None)"

text \<open>\<^verbatim>\<open>node := new(linkedListNode[Data]); node.data = data\<close>\<close>

definition new_node :: "'d heap \<Rightarrow> 'd \<Rightarrow> ptr \<times> 'd heap" where
  "new_node h d = (Some (length h), h @ [\<lparr>data = d, next = None, prev = None\<rparr>])"

section \<open>The linked list\<close>

text \<open>The receiver \<^verbatim>\<open>l *linkedList\<close> is passed in and returned updated, together
  with the arena its nodes live in.\<close>

definition addNode :: "'d heap \<Rightarrow> linkedList \<Rightarrow> ptr \<Rightarrow> (ptr \<times> 'd heap \<times> linkedList) option" where
  "addNode h l node = do {
     n \<leftarrow> deref h node;
     let h = h[n := (h ! n)\<lparr>prev := tail l\<rparr>];
     let h = h[n := (h ! n)\<lparr>next := None\<rparr>];
     (h, l) \<leftarrow> (if tail l = None then Some (h, l\<lparr>head := node\<rparr>)
                else do {
                  t \<leftarrow> deref h (tail l);
                  Some (h[t := (h ! t)\<lparr>next := node\<rparr>], l)
                });
     Some (node, h, l\<lparr>tail := node\<rparr>)
   }"

definition add :: "'d heap \<Rightarrow> linkedList \<Rightarrow> 'd \<Rightarrow> (ptr \<times> 'd heap \<times> linkedList) option" where
  "add h l d = (let (node, h) = new_node h d in addNode h l node)"

definition insertAfter :: "'d heap \<Rightarrow> linkedList \<Rightarrow> ptr \<Rightarrow> 'd \<Rightarrow> (ptr \<times> 'd heap \<times> linkedList) option" where
  "insertAfter h l pivot d = do {
     p \<leftarrow> deref h pivot;
     let pNext = next (h ! p);
     let (node, h) = new_node h d;
     let h = h[p := (h ! p)\<lparr>next := node\<rparr>];
     n \<leftarrow> deref h node;
     let h = h[n := (h ! n)\<lparr>prev := pivot\<rparr>];
     let h = h[n := (h ! n)\<lparr>next := pNext\<rparr>];
     (h, l) \<leftarrow> (if pNext \<noteq> None then do {
                  q \<leftarrow> deref h pNext;
                  Some (h[q := (h ! q)\<lparr>prev := node\<rparr>], l)
                }
                else Some (h, l\<lparr>tail := node\<rparr>));
     Some (node, h, l)
   }"

definition isEmpty :: "linkedList \<Rightarrow> bool" where
  "isEmpty l = (head l = None)"

definition remove_node :: "'d heap \<Rightarrow> linkedList \<Rightarrow> ptr \<Rightarrow> ('d heap \<times> linkedList) option" where
  "remove_node h l node =
     (if head l = node \<and> tail l = node then Some (h, l\<lparr>head := None, tail := None\<rparr>)
      else do {
        n \<leftarrow> deref h node;
        let nPrev = prev (h ! n);
        let nNext = next (h ! n);
        (h, l) \<leftarrow> (if nPrev \<noteq> None then do {
                     p \<leftarrow> deref h nPrev;
                     Some (h[p := (h ! p)\<lparr>next := nNext\<rparr>], l)
                   }
                   else Some (h, l\<lparr>head := nNext\<rparr>));
        (h, l) \<leftarrow> (if nNext \<noteq> None then do {
                     q \<leftarrow> deref h nNext;
                     Some (h[q := (h ! q)\<lparr>prev := nPrev\<rparr>], l)
                   }
                   else Some (h, l\<lparr>tail := nPrev\<rparr>));
        Some (h, l)
      })"

section \<open>The cache\<close>

record ('k, 'v) cacheData =
  key :: 'k
  "value" :: 'v
  container :: ptr

record sameFreqContainer =
  freq :: int
  entries :: linkedList

text \<open>The three fields of \<^verbatim>\<open>cacheImpl\<close>, and the two arenas its pointers range
  over: \<open>eheap\<close> holds the entry nodes, \<open>bheap\<close> the bucket nodes.\<close>

record ('k, 'v) cacheImpl =
  index :: "('k, ptr) mapping"
  sequence :: linkedList
  capacity :: int
  eheap :: "('k, 'v) cacheData heap"
  bheap :: "sameFreqContainer heap"

text \<open>The list header \<^verbatim>\<open>entries\<close> is stored inside the bucket cell, and the methods of
  \<^verbatim>\<open>linkedList\<close> are called on it in place (\<^verbatim>\<open>b.data.entries.remove(n)\<close>): the
  header they return is written back to the cell.\<close>

definition set_entries :: "sameFreqContainer heap \<Rightarrow> addr \<Rightarrow> linkedList \<Rightarrow> sameFreqContainer heap" where
  "set_entries bh b es = bh[b := (bh ! b)\<lparr>data := (data (bh ! b))\<lparr>entries := es\<rparr>\<rparr>]"

definition DefaultCapacity :: int where
  "DefaultCapacity = 5"

datatype error = ErrKeyNotFound | Panic string

definition New :: "int list \<Rightarrow> error + ('k, 'v) cacheImpl" where
  "New cap =
    (if length cap > 1 then Inl (Panic ''wtf'')
     else
       let c = (if length cap = 1 then cap ! 0 else DefaultCapacity) in
       if c < 0 then Inl (Panic ''negative capacity'')
       else
         (case add [] \<lparr>head = None, tail = None\<rparr> \<lparr>freq = 1, entries = \<lparr>head = None, tail = None\<rparr>\<rparr> of
            None \<Rightarrow> Inl (Panic ''nil pointer dereference'')
          | Some (_, bh, s) \<Rightarrow>
              Inr \<lparr>index = Mapping.empty, sequence = s, capacity = c, eheap = [], bheap = bh\<rparr>))"

definition Size :: "('k, 'v) cacheImpl \<Rightarrow> int" where
  "Size l = int (Mapping.size (index l))"

definition Capacity :: "('k, 'v) cacheImpl \<Rightarrow> int" where
  "Capacity l = capacity l"

text \<open>\<^verbatim>\<open>touch\<close> reads \<^verbatim>\<open>n.data.container\<close> several times; the field is written only
  by the last statement, so the model reads it once, as \<open>c\<close>.\<close>

definition touch :: "('k, 'v) cacheImpl \<Rightarrow> ptr \<Rightarrow> ('k, 'v) cacheImpl option" where
  "touch l n = do {
     na \<leftarrow> deref (eheap l) n;
     let c = container (data (eheap l ! na));
     ca \<leftarrow> deref (bheap l) c;
     let newFreq = freq (data (bheap l ! ca)) + 1;
     (eh, es) \<leftarrow> remove_node (eheap l) (entries (data (bheap l ! ca))) n;
     let bh = set_entries (bheap l) ca es;
     let cNext = next (bh ! ca);
     let bucket = \<lparr>freq = newFreq, entries = \<lparr>head = None, tail = None\<rparr>\<rparr>;
     (target, bh, s) \<leftarrow>
        (if cNext = None then insertAfter bh (sequence l) c bucket
         else do {
           cn \<leftarrow> deref bh cNext;
           if freq (data (bh ! cn)) > newFreq then insertAfter bh (sequence l) c bucket
           else Some (cNext, bh, sequence l)
         });
     ta \<leftarrow> deref bh target;
     (_, eh, ts) \<leftarrow> addNode eh (entries (data (bh ! ta))) n;
     let bh = set_entries bh ta ts;
     (bh, s) \<leftarrow> (if isEmpty (entries (data (bh ! ca))) \<and> freq (data (bh ! ca)) > 1
                 then remove_node bh s c
                 else Some (bh, s));
     let eh = eh[na := (eh ! na)\<lparr>data := (data (eh ! na))\<lparr>container := target\<rparr>\<rparr>];
     Some (l\<lparr>sequence := s, eheap := eh, bheap := bh\<rparr>)
   }"

definition Get :: "('k, 'v) cacheImpl \<Rightarrow> 'k \<Rightarrow> ((error + 'v) \<times> ('k, 'v) cacheImpl) option" where
  "Get l k =
     (case Mapping.lookup (index l) k of
        None \<Rightarrow> Some (Inl ErrKeyNotFound, l)
      | Some n \<Rightarrow> do {
          l \<leftarrow> touch l n;
          na \<leftarrow> deref (eheap l) n;
          Some (Inr (value (data (eheap l ! na))), l)
        })"

text \<open>The eviction scan of \<^verbatim>\<open>Put\<close>:
  \<^verbatim>\<open>for cur.data.entries.isEmpty() { cur = cur.next }\<close>. It dereferences \<^verbatim>\<open>cur\<close>
  without a nil check.\<close>

partial_function (option) evict_scan :: "sameFreqContainer heap \<Rightarrow> ptr \<Rightarrow> addr option" where
  "evict_scan bh cur = do {
     c \<leftarrow> deref bh cur;
     if isEmpty (entries (data (bh ! c))) then evict_scan bh (next (bh ! c)) else Some c
   }"

declare evict_scan.simps [code]

definition evict :: "('k, 'v) cacheImpl \<Rightarrow> ('k, 'v) cacheImpl option" where
  "evict l = do {
     cur \<leftarrow> evict_scan (bheap l) (head (sequence l));
     let hd = head (entries (data (bheap l ! cur)));
     (eh, es) \<leftarrow> remove_node (eheap l) (entries (data (bheap l ! cur))) hd;
     let bh = set_entries (bheap l) cur es;
     ha \<leftarrow> deref eh hd;
     Some (l\<lparr>index := Mapping.delete (key (data (eh ! ha))) (index l), eheap := eh, bheap := bh\<rparr>)
   }"

definition Put :: "('k, 'v) cacheImpl \<Rightarrow> 'k \<Rightarrow> 'v \<Rightarrow> ('k, 'v) cacheImpl option" where
  "Put l k v =
     (case Mapping.lookup (index l) k of
        Some n \<Rightarrow> do {
          l \<leftarrow> touch l n;
          na \<leftarrow> deref (eheap l) n;
          Some (l\<lparr>eheap := (eheap l)[na := (eheap l ! na)\<lparr>data := (data (eheap l ! na))\<lparr>value := v\<rparr>\<rparr>]\<rparr>)
        }
      | None \<Rightarrow> do {
          l \<leftarrow> (if Size l + 1 > Capacity l then evict l else Some l);
          sh \<leftarrow> deref (bheap l) (head (sequence l));
          (node, eh, es) \<leftarrow> add (eheap l) (entries (data (bheap l ! sh)))
                               \<lparr>key = k, value = v, container = head (sequence l)\<rparr>;
          let bh = set_entries (bheap l) sh es;
          Some (l\<lparr>index := Mapping.update k node (index l), eheap := eh, bheap := bh\<rparr>)
        })"

text \<open>The iterator. The consumer is the \<^verbatim>\<open>yield\<close> callback: it receives a pair,
  updates its own state \<open>st\<close> and says whether to go on. The inner loop returns
  \<open>False\<close> when the consumer stopped, which ends the outer loop too (the
  \<^verbatim>\<open>return\<close> of the source). The cache is passed through, so that what the
  iteration leaves behind can be compared with what it started from.\<close>

partial_function (option) all_entries ::
  "('k, 'v) cacheImpl \<Rightarrow> ('k \<Rightarrow> 'v \<Rightarrow> 's \<Rightarrow> bool \<times> 's) \<Rightarrow> ptr \<Rightarrow> 's \<Rightarrow> (bool \<times> 's \<times> ('k, 'v) cacheImpl) option" where
  "all_entries l yield curEntry st =
     (if curEntry = None then Some (True, st, l)
      else do {
        e \<leftarrow> deref (eheap l) curEntry;
        let (go, st) = yield (key (data (eheap l ! e))) (value (data (eheap l ! e))) st;
        if \<not> go then Some (False, st, l)
        else all_entries l yield (prev (eheap l ! e)) st
      })"

declare all_entries.simps [code]

partial_function (option) all_buckets ::
  "('k, 'v) cacheImpl \<Rightarrow> ('k \<Rightarrow> 'v \<Rightarrow> 's \<Rightarrow> bool \<times> 's) \<Rightarrow> ptr \<Rightarrow> 's \<Rightarrow> ('s \<times> ('k, 'v) cacheImpl) option" where
  "all_buckets l yield curFreq st =
     (if curFreq = None then Some (st, l)
      else do {
        b \<leftarrow> deref (bheap l) curFreq;
        (go, st, l) \<leftarrow> all_entries l yield (tail (entries (data (bheap l ! b)))) st;
        if \<not> go then Some (st, l)
        else all_buckets l yield (prev (bheap l ! b)) st
      })"

declare all_buckets.simps [code]

definition All_seq ::
  "('k, 'v) cacheImpl \<Rightarrow> ('k \<Rightarrow> 'v \<Rightarrow> 's \<Rightarrow> bool \<times> 's) \<Rightarrow> 's \<Rightarrow> ('s \<times> ('k, 'v) cacheImpl) option" where
  "All_seq l yield st = all_buckets l yield (tail (sequence l)) st"

definition GetKeyFrequency :: "('k, 'v) cacheImpl \<Rightarrow> 'k \<Rightarrow> (error + int) option" where
  "GetKeyFrequency l k =
     (case Mapping.lookup (index l) k of
        None \<Rightarrow> Some (Inl ErrKeyNotFound)
      | Some n \<Rightarrow> do {
          na \<leftarrow> deref (eheap l) n;
          ca \<leftarrow> deref (bheap l) (container (data (eheap l ! na)));
          Some (Inr (freq (data (bheap l ! ca))))
        })"

section \<open>Well-formed heaps\<close>

text \<open>\<open>path f h p as q\<close>: following the pointer field \<open>f\<close> from \<open>p\<close> visits exactly the
  cells \<open>as\<close>, in this order, and ends at \<open>q\<close>. \<open>dll h l as\<close>: the list header \<open>l\<close> and
  the \<^verbatim>\<open>next\<close> and \<^verbatim>\<open>prev\<close> fields form a doubly linked list of the distinct cells
  \<open>as\<close>, from head to tail.\<close>

primrec path :: "('d linkedListNode \<Rightarrow> ptr) \<Rightarrow> 'd heap \<Rightarrow> ptr \<Rightarrow> addr list \<Rightarrow> ptr \<Rightarrow> bool" where
  "path f h p [] q = (p = q)"
| "path f h p (a # as) q = (p = Some a \<and> a < length h \<and> path f h (f (h ! a)) as q)"

definition dll :: "'d heap \<Rightarrow> linkedList \<Rightarrow> addr list \<Rightarrow> bool" where
  "dll h l as = (path next h (head l) as None \<and> path prev h (tail l) (rev as) None \<and> distinct as)"

section \<open>The shape of a cache\<close>

text \<open>A layout lists the bucket cells of the sequence from head to tail, each with the
  entry cells of its list from head (least recently touched) to tail (most recently
  touched). \<open>wf l B\<close> says that the cache \<open>l\<close> is laid out as \<open>B\<close>:
  \<^item> the sequence is a doubly linked list of the buckets of \<open>B\<close>, and it is not empty;
  \<^item> the entry list of each bucket is a doubly linked list of its entries, and each
    of them points back to the bucket through \<^verbatim>\<open>container\<close>;
  \<^item> the first bucket has frequency 1 and the frequencies increase strictly;
  \<^item> no two entries hold the same key, and the index maps exactly the keys of the
    entries, each to its entry.\<close>

type_synonym layout = "(addr \<times> addr list) list"

definition cells :: "layout \<Rightarrow> addr list" where
  "cells B = concat (map snd B)"

definition bucket_ok :: "('k, 'v) cacheData heap \<Rightarrow> sameFreqContainer heap \<Rightarrow> addr \<times> addr list \<Rightarrow> bool" where
  "bucket_ok eh bh x =
     (case x of (b, es) \<Rightarrow>
        dll eh (entries (data (bh ! b))) es \<and> (\<forall>e \<in> set es. container (data (eh ! e)) = Some b))"

definition ascending :: "sameFreqContainer heap \<Rightarrow> addr list \<Rightarrow> bool" where
  "ascending bh bs \<longleftrightarrow>
     freq (data (bh ! hd bs)) = 1 \<and> sorted_wrt (<) (map (\<lambda>b. freq (data (bh ! b))) bs)"

definition indexed :: "('k, ptr) mapping \<Rightarrow> ('k, 'v) cacheData heap \<Rightarrow> addr list \<Rightarrow> bool" where
  "indexed ix eh cs \<longleftrightarrow>
     distinct (map (\<lambda>e. key (data (eh ! e))) cs) \<and>
     (\<forall>k p. Mapping.lookup ix k = Some p \<longleftrightarrow> (\<exists>e \<in> set cs. p = Some e \<and> key (data (eh ! e)) = k))"

definition wf :: "('k, 'v) cacheImpl \<Rightarrow> layout \<Rightarrow> bool" where
  "wf l B \<longleftrightarrow>
     B \<noteq> [] \<and>
     dll (bheap l) (sequence l) (map fst B) \<and>
     (\<forall>x \<in> set B. bucket_ok (eheap l) (bheap l) x) \<and>
     ascending (bheap l) (map fst B) \<and>
     indexed (index l) (eheap l) (cells B)"

text \<open>What a caller can observe of an entry: its key, its value and the frequency of the
  bucket it points to. The ranking of a cache lists this for every entry, from the
  head of the first bucket to the tail of the last: in order of eviction.\<close>

type_synonym ('k, 'v) ranking = "('k \<times> 'v \<times> int) list"

definition entry :: "('k, 'v) cacheImpl \<Rightarrow> addr \<Rightarrow> 'k \<times> 'v \<times> int" where
  "entry l e =
     (let d = data (eheap l ! e)
      in (key d, value d, case container d of None \<Rightarrow> 0 | Some b \<Rightarrow> freq (data (bheap l ! b))))"

definition flat :: "('k, 'v) cacheImpl \<Rightarrow> layout \<Rightarrow> ('k, 'v) ranking" where
  "flat l B = map (entry l) (cells B)"

definition ranked :: "('k, 'v) cacheImpl \<Rightarrow> ('k, 'v) ranking \<Rightarrow> bool" where
  "ranked l xs \<longleftrightarrow> (\<exists>B. wf l B \<and> flat l B = xs)"

text \<open>\<open>promote x xs\<close> puts \<open>x\<close> behind every element whose frequency is at most that of
  \<open>x\<close>; \<open>without k xs\<close> drops the element of key \<open>k\<close>.\<close>

definition promote :: "'k \<times> 'v \<times> int \<Rightarrow> ('k, 'v) ranking \<Rightarrow> ('k, 'v) ranking" where
  "promote x xs =
     takeWhile (\<lambda>y. snd (snd y) \<le> snd (snd x)) xs @ x # dropWhile (\<lambda>y. snd (snd y) \<le> snd (snd x)) xs"

definition without :: "'k \<Rightarrow> ('k, 'v) ranking \<Rightarrow> ('k, 'v) ranking" where
  "without k xs = filter (\<lambda>y. fst y \<noteq> k) xs"

text \<open>The last two statements of \<^verbatim>\<open>Put\<close>, which link the new entry and index it.\<close>

definition insert_new :: "('k, 'v) cacheImpl \<Rightarrow> 'k \<Rightarrow> 'v \<Rightarrow> ('k, 'v) cacheImpl option" where
  "insert_new l k v = do {
     sh \<leftarrow> deref (bheap l) (head (sequence l));
     (node, eh, es) \<leftarrow> add (eheap l) (entries (data (bheap l ! sh)))
                          \<lparr>key = k, value = v, container = head (sequence l)\<rparr>;
     let bh = set_entries (bheap l) sh es;
     Some (l\<lparr>index := Mapping.update k node (index l), eheap := eh, bheap := bh\<rparr>)
   }"

text \<open>Two steps of \<^verbatim>\<open>touch\<close>, named: the choice of the target bucket (the
  \<^verbatim>\<open>if\<close> around \<^verbatim>\<open>insertAfter\<close>), and the removal of the bucket the entry left.\<close>

definition touch_target ::
  "sameFreqContainer heap \<Rightarrow> linkedList \<Rightarrow> ptr \<Rightarrow> addr \<Rightarrow> int \<Rightarrow> (ptr \<times> sameFreqContainer heap \<times> linkedList) option" where
  "touch_target bh s c ca newFreq =
     (let cNext = next (bh ! ca);
          bucket = \<lparr>freq = newFreq, entries = \<lparr>head = None, tail = None\<rparr>\<rparr>
      in if cNext = None then insertAfter bh s c bucket
         else do {
           cn \<leftarrow> deref bh cNext;
           if freq (data (bh ! cn)) > newFreq then insertAfter bh s c bucket
           else Some (cNext, bh, s)
         })"

definition touch_drop ::
  "sameFreqContainer heap \<Rightarrow> linkedList \<Rightarrow> ptr \<Rightarrow> addr \<Rightarrow> (sameFreqContainer heap \<times> linkedList) option" where
  "touch_drop bh s c ca =
     (if isEmpty (entries (data (bh ! ca))) \<and> freq (data (bh ! ca)) > 1 then remove_node bh s c
      else Some (bh, s))"

definition set_container :: "('k, 'v) cacheData heap \<Rightarrow> addr \<Rightarrow> ptr \<Rightarrow> ('k, 'v) cacheData heap" where
  "set_container eh n t = eh[n := (eh ! n)\<lparr>data := (data (eh ! n))\<lparr>container := t\<rparr>\<rparr>]"

definition set_value :: "('k, 'v) cacheData heap \<Rightarrow> addr \<Rightarrow> 'v \<Rightarrow> ('k, 'v) cacheData heap" where
  "set_value eh n v = eh[n := (eh ! n)\<lparr>data := (data (eh ! n))\<lparr>value := v\<rparr>\<rparr>]"

text \<open>\<open>revalue k v\<close> replaces the value of the element of key \<open>k\<close>.\<close>

definition revalue :: "'k \<Rightarrow> 'v \<Rightarrow> 'k \<times> 'v \<times> int \<Rightarrow> 'k \<times> 'v \<times> int" where
  "revalue k v x = (if fst x = k then (fst x, v, snd (snd x)) else x)"

section \<open>The operations on rankings\<close>

text \<open>What each operation of the cache does to the ranking: the reference against which
  the pointer code is verified. A touch moves the element behind every element of at
  most its new frequency; an insertion into a full cache first drops the head of the
  ranking, and there is nothing to drop when the ranking is empty.\<close>

definition rank_get :: "'k \<Rightarrow> ('k, 'v) ranking \<Rightarrow> (error + 'v) \<times> ('k, 'v) ranking" where
  "rank_get k xs =
     (case map_of xs k of
        None \<Rightarrow> (Inl ErrKeyNotFound, xs)
      | Some (v, f) \<Rightarrow> (Inr v, promote (k, v, f + 1) (without k xs)))"

definition rank_put :: "int \<Rightarrow> 'k \<Rightarrow> 'v \<Rightarrow> ('k, 'v) ranking \<Rightarrow> ('k, 'v) ranking option" where
  "rank_put c k v xs =
     (case map_of xs k of
        Some (v0, f) \<Rightarrow> Some (promote (k, v, f + 1) (without k xs))
      | None \<Rightarrow>
          if int (length xs) + 1 > c
          then (case xs of [] \<Rightarrow> None | x # xs' \<Rightarrow> Some (promote (k, v, 1) xs'))
          else Some (promote (k, v, 1) xs))"

definition rank_freq :: "'k \<Rightarrow> ('k, 'v) ranking \<Rightarrow> error + int" where
  "rank_freq k xs = (case map_of xs k of None \<Rightarrow> Inl ErrKeyNotFound | Some (v, f) \<Rightarrow> Inr f)"

definition rank_all :: "('k, 'v) ranking \<Rightarrow> ('k \<times> 'v) list" where
  "rank_all xs = rev (map (\<lambda>x. (fst x, fst (snd x))) xs)"

text \<open>Feeding a list of pairs to a consumer, until it stops.\<close>

fun feed :: "('k \<Rightarrow> 'v \<Rightarrow> 's \<Rightarrow> bool \<times> 's) \<Rightarrow> ('k \<times> 'v) list \<Rightarrow> 's \<Rightarrow> bool \<times> 's" where
  "feed yield [] st = (True, st)"
| "feed yield (x # xs) st =
     (let (go, st') = yield (fst x) (snd x) st in if \<not> go then (False, st') else feed yield xs st')"

section \<open>Callers\<close>

text \<open>A caller of the cache issues \<^verbatim>\<open>Put\<close> and \<^verbatim>\<open>Get\<close> calls one after the other; \<open>run\<close> stops
  at the first call that does not return. A \<^verbatim>\<open>Get\<close> of an absent key returns
  \<^verbatim>\<open>ErrKeyNotFound\<close> and the caller goes on.\<close>

datatype ('k, 'v) operation = OpPut 'k 'v | OpGet 'k

fun step :: "('k, 'v) cacheImpl \<Rightarrow> ('k, 'v) operation \<Rightarrow> ('k, 'v) cacheImpl option" where
  "step l (OpPut k v) = Put l k v"
| "step l (OpGet k) = map_option snd (Get l k)"

fun run :: "('k, 'v) cacheImpl \<Rightarrow> ('k, 'v) operation list \<Rightarrow> ('k, 'v) cacheImpl option" where
  "run l [] = Some l"
| "run l (x # xs) = (case step l x of None \<Rightarrow> None | Some l' \<Rightarrow> run l' xs)"

text \<open>The states a caller can bring a cache into.\<close>

inductive reachable :: "('k, 'v) cacheImpl \<Rightarrow> bool" where
  new: "New cap = Inr l \<Longrightarrow> reachable l"
| put: "reachable l \<Longrightarrow> Put l k v = Some l' \<Longrightarrow> reachable l'"
| get: "reachable l \<Longrightarrow> Get l k = Some (r, l') \<Longrightarrow> reachable l'"

text \<open>The history of a cache: \<open>last_touch ops k\<close> is the position (from 1) of the last
  operation of \<open>ops\<close> on the key \<open>k\<close>, and 0 when there is none. For a key that is
  cached after \<open>ops\<close> this operation is its last touch: the \<^verbatim>\<open>Put\<close> that inserted or
  updated it, or a \<^verbatim>\<open>Get\<close> that found it (after a \<^verbatim>\<open>Get\<close> that does not find the key the
  key is still absent).\<close>

fun op_key :: "('k, 'v) operation \<Rightarrow> 'k" where
  "op_key (OpPut k v) = k"
| "op_key (OpGet k) = k"

definition last_touch :: "('k, 'v) operation list \<Rightarrow> 'k \<Rightarrow> nat" where
  "last_touch ops k = length (dropWhile (\<lambda>x. op_key x \<noteq> k) (rev ops))"

text \<open>The order of eviction: by frequency, and by the last touch among equal
  frequencies.\<close>

definition lfu_order :: "('k, 'v) operation list \<Rightarrow> 'k \<times> 'v \<times> int \<Rightarrow> 'k \<times> 'v \<times> int \<Rightarrow> bool" where
  "lfu_order ops x y \<longleftrightarrow>
     snd (snd x) < snd (snd y) \<or>
     snd (snd x) = snd (snd y) \<and> last_touch ops (fst x) < last_touch ops (fst y)"

text \<open>Counting along a run: a \<^verbatim>\<open>Put\<close> inserts when the index does not hold the key, and
  it evicts when moreover the size plus one exceeds the capacity (the two tests of the
  source).\<close>

fun inserts :: "('k, 'v) cacheImpl \<Rightarrow> ('k, 'v) operation \<Rightarrow> bool" where
  "inserts l (OpPut k v) = (Mapping.lookup (index l) k = None)"
| "inserts l (OpGet k) = False"

definition evicts :: "('k, 'v) cacheImpl \<Rightarrow> ('k, 'v) operation \<Rightarrow> bool" where
  "evicts l x \<longleftrightarrow> inserts l x \<and> Size l + 1 > Capacity l"

fun insertions :: "('k, 'v) cacheImpl \<Rightarrow> ('k, 'v) operation list \<Rightarrow> nat" where
  "insertions l [] = 0"
| "insertions l (x # xs) =
     (if inserts l x then 1 else 0) + (case step l x of None \<Rightarrow> 0 | Some l' \<Rightarrow> insertions l' xs)"

fun evictions :: "('k, 'v) cacheImpl \<Rightarrow> ('k, 'v) operation list \<Rightarrow> nat" where
  "evictions l [] = 0"
| "evictions l (x # xs) =
     (if evicts l x then 1 else 0) + (case step l x of None \<Rightarrow> 0 | Some l' \<Rightarrow> evictions l' xs)"

text \<open>The distinct keys that a list of operations puts.\<close>

definition keys_put :: "('k, 'v) operation list \<Rightarrow> 'k list" where
  "keys_put ops = remdups (concat (map (\<lambda>x. case x of OpPut k v \<Rightarrow> [k] | OpGet k \<Rightarrow> []) ops))"

text \<open>Two consumers for the iterator: \<open>collect\<close> takes every pair; \<open>collect_upto n\<close> stops
  once it holds \<open>n\<close> pairs (it is asked after each pair, so it takes at least one).\<close>

definition collect :: "'k \<Rightarrow> 'v \<Rightarrow> ('k \<times> 'v) list \<Rightarrow> bool \<times> ('k \<times> 'v) list" where
  "collect k v acc = (True, acc @ [(k, v)])"

definition collect_upto :: "nat \<Rightarrow> 'k \<Rightarrow> 'v \<Rightarrow> ('k \<times> 'v) list \<Rightarrow> bool \<times> ('k \<times> 'v) list" where
  "collect_upto n k v acc = (Suc (length acc) < n, acc @ [(k, v)])"

text \<open>Concrete caches, for the instances below.\<close>

definition cache3 :: "(nat, nat) cacheImpl" where
  "cache3 = (case New [3] of Inr l \<Rightarrow> l)"

section \<open>The linked list operations on well-formed lists\<close>

lemma path_append: "path f h p (as @ bs) q = (\<exists>r. path f h p as r \<and> path f h r bs q)"
  by (induction as arbitrary: p) auto

lemma path_snoc: "path f h p (as @ [a]) q = (path f h p as (Some a) \<and> a < length h \<and> f (h ! a) = q)"
  by (auto simp: path_append)

lemma path_bound: "path f h p as q \<Longrightarrow> a \<in> set as \<Longrightarrow> a < length h"
  by (induction as arbitrary: p) auto

lemma path_cong:
  "path f h p as q \<Longrightarrow> length h \<le> length h' \<Longrightarrow> (\<And>a. a \<in> set as \<Longrightarrow> f (h' ! a) = f (h ! a))
   \<Longrightarrow> path f h' p as q"
  by (induction as arbitrary: p) auto

lemma path_unique: "path f h p as None \<Longrightarrow> path f h p bs None \<Longrightarrow> as = bs"
proof (induction as arbitrary: p bs)
  case Nil
  then show ?case by (cases bs) auto
next
  case (Cons a as)
  then show ?case by (cases bs) auto
qed

lemma dll_unique: "dll h l as \<Longrightarrow> dll h l bs \<Longrightarrow> as = bs"
  unfolding dll_def by (blast intro: path_unique)

lemma dll_bound: "dll h l as \<Longrightarrow> a \<in> set as \<Longrightarrow> a < length h"
  unfolding dll_def by (blast intro: path_bound)

lemma dll_Nil: "dll h l [] = (head l = None \<and> tail l = None)"
  by (simp add: dll_def)

lemma dll_head: "dll h l as \<Longrightarrow> head l = (case as of [] \<Rightarrow> None | a # _ \<Rightarrow> Some a)"
  by (cases as) (auto simp: dll_def)

lemma dll_tail: "dll h l as \<Longrightarrow> tail l = (if as = [] then None else Some (last as))"
  by (cases as rule: rev_cases) (auto simp: dll_def)

lemma dll_isEmpty: "dll h l as \<Longrightarrow> isEmpty l = (as = [])"
  by (cases as) (auto simp: dll_def isEmpty_def)

lemma dll_frame:
  "dll h l as \<Longrightarrow> length h \<le> length h' \<Longrightarrow> (\<And>a. a \<in> set as \<Longrightarrow> h' ! a = h ! a) \<Longrightarrow> dll h' l as"
  unfolding dll_def by (auto intro: path_cong)

lemma dll_links:
  fixes h h' :: "'d heap"
  shows "dll h l as \<Longrightarrow> length h \<le> length h' \<Longrightarrow>
   (\<And>a. a \<in> set as \<Longrightarrow> next (h' ! a) = next (h ! a) \<and> prev (h' ! a) = prev (h ! a)) \<Longrightarrow> dll h' l as"
  unfolding dll_def using path_cong [where h = h and h' = h' and as = as and f = "next"]
    path_cong [where h = h and h' = h' and as = "rev as" and f = prev]
  by simp

text \<open>The neighbours of a node inside a list.\<close>

lemma dll_mid_next:
  "dll h l (as @ a # bs) \<Longrightarrow> next (h ! a) = (case bs of [] \<Rightarrow> None | b # _ \<Rightarrow> Some b)"
  by (cases bs) (auto simp: dll_def path_append)

lemma dll_mid_prev:
  "dll h l (as @ a # bs) \<Longrightarrow> prev (h ! a) = (if as = [] then None else Some (last as))"
  by (cases as rule: rev_cases) (auto simp: dll_def path_append)


lemma data_upd_prev [simp]: "data (h[q := (h ! q)\<lparr>prev := x\<rparr>] ! a) = data (h ! a)"
  by (cases "q < length h") (auto simp: nth_list_update list_update_beyond)

lemma data_upd_next [simp]: "data (h[q := (h ! q)\<lparr>next := x\<rparr>] ! a) = data (h ! a)"
  by (cases "q < length h") (auto simp: nth_list_update list_update_beyond)

lemma path_snoc_upd:
  "path f h p (as @ [a]) q \<Longrightarrow> length h \<le> length h' \<Longrightarrow>
   (\<And>x. x \<in> set as \<Longrightarrow> f (h' ! x) = f (h ! x)) \<Longrightarrow> f (h' ! a) = q' \<Longrightarrow>
   path f h' p (as @ [a]) q'"
  unfolding path_snoc using path_cong [where h = h and h' = h' and as = as and f = f] by auto

lemma addNode_dll:
  assumes "dll h l as" "a < length h" "a \<notin> set as"
  shows "\<exists>h' l'. addNode h l (Some a) = Some (Some a, h', l') \<and> dll h' l' (as @ [a]) \<and>
           length h' = length h \<and> (\<forall>x. data (h' ! x) = data (h ! x)) \<and>
           (\<forall>x. x \<noteq> a \<longrightarrow> x \<notin> set as \<longrightarrow> h' ! x = h ! x)"
proof (cases as rule: rev_cases)
  case Nil
  with assms show ?thesis
    by (simp add: addNode_def deref_def dll_def nth_list_update)
next
  case (snoc as' t)
  with assms have t: "tail l = Some t" "t < length h" "t \<noteq> a" "a \<notin> set as'" "t \<notin> set as'"
    by (auto simp: dll_def)
  have l: "path next h (head l) (as' @ [t]) None" "path prev h (tail l) (t # rev as') None"
    using assms(1) snoc by (auto simp: dll_def)
  define h' where "h' = h[a := (h ! a)\<lparr>prev := Some t, next := None\<rparr>, t := (h ! t)\<lparr>next := Some a\<rparr>]"
  have run: "addNode h l (Some a) = Some (Some a, h', l\<lparr>tail := Some a\<rparr>)"
    using assms(2) t by (simp add: addNode_def deref_def h'_def)
  have nx: "path next h' (head l) (as' @ [t]) (Some a)"
    by (rule path_snoc_upd [OF l(1)]) (use t assms(2) in \<open>auto simp: h'_def nth_list_update\<close>)
  have pv: "path prev h' (tail l) (t # rev as') None"
    by (rule path_cong [OF l(2)]) (use t assms(2) in \<open>auto simp: h'_def nth_list_update\<close>)
  have "dll h' (l\<lparr>tail := Some a\<rparr>) (as' @ [t] @ [a])"
    using nx pv t assms(2,3) assms(1) unfolding dll_def snoc
    by (simp add: path_append h'_def)
  moreover have "\<forall>x. data (h' ! x) = data (h ! x)"
    using t assms(2) by (auto simp: h'_def nth_list_update)
  moreover have "\<forall>x. x \<noteq> a \<longrightarrow> x \<notin> set as \<longrightarrow> h' ! x = h ! x"
    using snoc by (auto simp: h'_def)
  ultimately show ?thesis using run snoc by (simp add: h'_def)
qed


lemma add_dll:
  assumes "dll h l as"
  shows "\<exists>h' l'. add h l d = Some (Some (length h), h', l') \<and> dll h' l' (as @ [length h]) \<and>
           length h' = Suc (length h) \<and> data (h' ! length h) = d \<and>
           (\<forall>x < length h. data (h' ! x) = data (h ! x)) \<and>
           (\<forall>x < length h. x \<notin> set as \<longrightarrow> h' ! x = h ! x)"
proof -
  let ?h1 = "h @ [\<lparr>data = d, next = None, prev = None\<rparr>]"
  have "dll ?h1 l as"
    using assms by (rule dll_frame) (auto simp: nth_append dest: dll_bound [OF assms])
  moreover have "length h \<notin> set as"
    using dll_bound [OF assms] by auto
  ultimately obtain h' l' where
    r: "addNode ?h1 l (Some (length h)) = Some (Some (length h), h', l')" "dll h' l' (as @ [length h])"
       "length h' = length ?h1" "\<forall>x. data (h' ! x) = data (?h1 ! x)"
       "\<forall>x. x \<noteq> length h \<longrightarrow> x \<notin> set as \<longrightarrow> h' ! x = ?h1 ! x"
    using addNode_dll [of ?h1 l as "length h"] by auto
  have "add h l d = Some (Some (length h), h', l')"
    using r(1) by (simp add: add_def new_node_def)
  moreover have "data (h' ! length h) = d"
    using r(4) by simp
  moreover have "\<forall>x < length h. data (h' ! x) = data (h ! x)"
    using r(4) by (simp add: nth_append)
  moreover have "\<forall>x < length h. x \<notin> set as \<longrightarrow> h' ! x = h ! x"
    using r(5) by (simp add: nth_append)
  ultimately show ?thesis using r(2,3) by simp
qed

lemma remove_node_dll:
  assumes "dll h l (as @ a # bs)"
  shows "\<exists>h' l'. remove_node h l (Some a) = Some (h', l') \<and> dll h' l' (as @ bs) \<and>
           length h' = length h \<and> (\<forall>x. data (h' ! x) = data (h ! x)) \<and>
           (\<forall>x. x \<notin> set as \<longrightarrow> x \<notin> set bs \<longrightarrow> h' ! x = h ! x)"
proof -
  have a: "a < length h" "a \<notin> set as" "a \<notin> set bs" "distinct as" "distinct bs" "set as \<inter> set bs = {}"
    using assms dll_bound [OF assms, of a] by (auto simp: dll_def)
  have nx: "next (h ! a) = (case bs of [] \<Rightarrow> None | b # _ \<Rightarrow> Some b)"
    using assms by (rule dll_mid_next)
  have pv: "prev (h ! a) = (if as = [] then None else Some (last as))"
    using assms by (rule dll_mid_prev)
  have hd: "head l = (case as @ a # bs of [] \<Rightarrow> None | x # _ \<Rightarrow> Some x)"
    using assms by (rule dll_head)
  have tl: "tail l = Some (last (a # bs))"
    using dll_tail [OF assms] by simp
  show ?thesis
  proof (cases "as = [] \<and> bs = []")
    case True
    then have "remove_node h l (Some a) = Some (h, l\<lparr>head := None, tail := None\<rparr>)"
      using hd tl by (simp add: remove_node_def)
    then show ?thesis using True by (simp add: dll_def)
  next
    case False
    then have ne: "\<not> (head l = Some a \<and> tail l = Some a)"
      using hd tl a by (cases as; cases bs rule: rev_cases) auto
    have l: "path next h (head l) as (Some a)" "path next h (next (h ! a)) bs None"
      "path prev h (tail l) (rev bs) (Some a)" "path prev h (prev (h ! a)) (rev as) None"
      using assms by (auto simp: dll_def path_append)
    show ?thesis
    proof (cases as rule: rev_cases)
      case Nil
      then obtain q bs' where bs: "bs = q # bs'" using False by (cases bs) auto
      define h' where "h' = h[q := (h ! q)\<lparr>prev := None\<rparr>]"
      have q: "q < length h" "q \<noteq> a" "q \<notin> set bs'" using a l(2) bs by auto
      have run: "remove_node h l (Some a) = Some (h', l\<lparr>head := Some q\<rparr>)"
        unfolding remove_node_def if_not_P [OF ne] using a nx pv Nil bs q
        by (simp add: deref_def h'_def)
      have "path next h' (next (h ! a)) bs None"
        by (rule path_cong [OF l(2)]) (use q in \<open>auto simp: h'_def nth_list_update\<close>)
      moreover have "path prev h' (tail l) (rev bs' @ [q]) None"
        by (rule path_snoc_upd [where h = h and q = "Some a"])
          (use l(3) bs q in \<open>auto simp: h'_def nth_list_update\<close>)
      ultimately have "dll h' (l\<lparr>head := Some q\<rparr>) (as @ bs)"
        using a Nil bs nx by (simp add: dll_def)
      moreover have "\<forall>x. data (h' ! x) = data (h ! x)"
        by (simp add: h'_def)
      moreover have "\<forall>x. x \<notin> set as \<longrightarrow> x \<notin> set bs \<longrightarrow> h' ! x = h ! x"
        using bs by (simp add: h'_def)
      ultimately show ?thesis using run by (simp add: h'_def)
    next
      case (snoc as' p)
      have p: "p < length h" "p \<noteq> a" "p \<notin> set as'" "p \<notin> set bs"
        using a l(1) snoc by (auto simp: path_snoc)
      show ?thesis
      proof (cases bs)
        case Nil
        define h' where "h' = h[p := (h ! p)\<lparr>next := None\<rparr>]"
        have run: "remove_node h l (Some a) = Some (h', l\<lparr>tail := Some p\<rparr>)"
          unfolding remove_node_def if_not_P [OF ne] using a nx pv Nil snoc p
          by (simp add: deref_def h'_def)
        have "path next h' (head l) (as' @ [p]) None"
          by (rule path_snoc_upd [where h = h and q = "Some a"])
            (use l(1) snoc p in \<open>auto simp: h'_def nth_list_update\<close>)
        moreover have "path prev h' (prev (h ! a)) (rev as) None"
          by (rule path_cong [OF l(4)]) (use p in \<open>auto simp: h'_def nth_list_update\<close>)
        ultimately have "dll h' (l\<lparr>tail := Some p\<rparr>) (as @ bs)"
          using a Nil snoc pv by (simp add: dll_def)
        moreover have "\<forall>x. data (h' ! x) = data (h ! x)"
          by (simp add: h'_def)
        moreover have "\<forall>x. x \<notin> set as \<longrightarrow> x \<notin> set bs \<longrightarrow> h' ! x = h ! x"
          using snoc by (simp add: h'_def)
        ultimately show ?thesis using run by (simp add: h'_def)
      next
        case (Cons q bs')
        define h' where "h' = h[p := (h ! p)\<lparr>next := Some q\<rparr>, q := (h ! q)\<lparr>prev := Some p\<rparr>]"
        have q: "q < length h" "q \<noteq> a" "q \<notin> set bs'" "q \<noteq> p" "q \<notin> set as'"
          using a l(2) Cons snoc by auto
        have run: "remove_node h l (Some a) = Some (h', l)"
          unfolding remove_node_def if_not_P [OF ne] using a nx pv Cons snoc p q
          by (simp add: deref_def h'_def)
        have "path next h' (head l) (as' @ [p]) (Some q)"
          by (rule path_snoc_upd [where h = h and q = "Some a"])
            (use l(1) snoc p q in \<open>auto simp: h'_def nth_list_update\<close>)
        moreover have "path next h' (next (h ! a)) bs None"
          by (rule path_cong [OF l(2)]) (use p q Cons in \<open>auto simp: h'_def nth_list_update\<close>)
        moreover have "path prev h' (tail l) (rev bs' @ [q]) (Some p)"
          by (rule path_snoc_upd [where h = h and q = "Some a"])
            (use l(3) Cons p q in \<open>auto simp: h'_def nth_list_update\<close>)
        moreover have "path prev h' (prev (h ! a)) (rev as) None"
          by (rule path_cong [OF l(4)]) (use p q snoc in \<open>auto simp: h'_def nth_list_update\<close>)
        ultimately have "dll h' l (as @ bs)"
          using a Cons snoc nx pv unfolding dll_def by (auto simp: path_append)
        moreover have "\<forall>x. data (h' ! x) = data (h ! x)"
          using p q by (auto simp: h'_def nth_list_update)
        moreover have "\<forall>x. x \<notin> set as \<longrightarrow> x \<notin> set bs \<longrightarrow> h' ! x = h ! x"
          using snoc Cons by (simp add: h'_def)
        ultimately show ?thesis using run by (simp add: h'_def)
      qed
    qed
  qed
qed


lemma insertAfter_dll:
  assumes "dll h l (as @ p # bs)"
  shows "\<exists>h' l'. insertAfter h l (Some p) d = Some (Some (length h), h', l') \<and>
           dll h' l' (as @ p # length h # bs) \<and>
           length h' = Suc (length h) \<and> data (h' ! length h) = d \<and>
           (\<forall>x < length h. data (h' ! x) = data (h ! x)) \<and>
           (\<forall>x < length h. x \<noteq> p \<longrightarrow> x \<notin> set bs \<longrightarrow> h' ! x = h ! x)"
proof -
  let ?n = "length h"
  have bnd: "\<forall>x \<in> set as. x < ?n" "\<forall>x \<in> set bs. x < ?n" "p < ?n"
    using dll_bound [OF assms] by auto
  have p: "p < ?n" "p \<notin> set as" "p \<notin> set bs" "distinct as" "distinct bs" "set as \<inter> set bs = {}"
    "?n \<notin> set as" "?n \<notin> set bs" "p \<noteq> ?n"
    using assms bnd by (auto simp: dll_def)
  have nx: "next (h ! p) = (case bs of [] \<Rightarrow> None | b # _ \<Rightarrow> Some b)"
    using assms by (rule dll_mid_next)
  have l: "path next h (head l) (as @ [p]) (next (h ! p))" "path next h (next (h ! p)) bs None"
      "path prev h (tail l) (rev bs) (Some p)" "path prev h (Some p) (p # rev as) None"
    using assms by (auto simp: dll_def path_append)
  show ?thesis
  proof (cases bs)
    case Nil
    define h' where "h' = (h @ [\<lparr>data = d, next = None, prev = Some p\<rparr>])[p := (h ! p)\<lparr>next := Some ?n\<rparr>]"
    have run: "insertAfter h l (Some p) d = Some (Some ?n, h', l\<lparr>tail := Some ?n\<rparr>)"
      using p nx Nil
      by (simp add: insertAfter_def deref_def new_node_def h'_def nth_append list_update_append
          list_update_swap [of p "length h"])
    have "path next h' (head l) (as @ [p]) (Some ?n)"
      by (rule path_snoc_upd [OF l(1)]) (use p bnd in \<open>auto simp: h'_def nth_list_update nth_append\<close>)
    moreover have "path prev h' (Some p) (p # rev as) None"
      by (rule path_cong [OF l(4)]) (use p bnd in \<open>auto simp: h'_def nth_list_update nth_append\<close>)
    moreover have "next (h' ! ?n) = None" "prev (h' ! ?n) = Some p" "length h' = Suc ?n"
      using p by (auto simp: h'_def nth_list_update nth_append)
    ultimately have "dll h' (l\<lparr>tail := Some ?n\<rparr>) (as @ p # ?n # bs)"
      using p Nil unfolding dll_def by (auto simp: path_append)
    moreover have "data (h' ! ?n) = d" "\<forall>x < ?n. data (h' ! x) = data (h ! x)"
      "\<forall>x < ?n. x \<noteq> p \<longrightarrow> x \<notin> set bs \<longrightarrow> h' ! x = h ! x"
      using p by (auto simp: h'_def nth_list_update nth_append)
    ultimately show ?thesis using run \<open>length h' = Suc ?n\<close> by simp
  next
    case (Cons q bs')
    define h' where "h' = (h @ [\<lparr>data = d, next = Some q, prev = Some p\<rparr>])
        [p := (h ! p)\<lparr>next := Some ?n\<rparr>, q := (h ! q)\<lparr>prev := Some ?n\<rparr>]"
    have q: "q < ?n" "q \<noteq> p" "q \<notin> set bs'" "q \<notin> set as"
      using p bnd Cons by auto
    have run: "insertAfter h l (Some p) d = Some (Some ?n, h', l)"
      using p q nx Cons
      by (simp add: insertAfter_def deref_def new_node_def h'_def nth_append list_update_append
          list_update_swap [of p "length h"] list_update_swap [of q "length h"])
    have "path next h' (head l) (as @ [p]) (Some ?n)"
      by (rule path_snoc_upd [OF l(1)]) (use p q bnd in \<open>auto simp: h'_def nth_list_update nth_append\<close>)
    moreover have "path next h' (next (h ! p)) bs None"
      by (rule path_cong [OF l(2)]) (use p q bnd Cons in \<open>auto simp: h'_def nth_list_update nth_append\<close>)
    moreover have "path prev h' (tail l) (rev bs' @ [q]) (Some ?n)"
      by (rule path_snoc_upd [where h = h and q = "Some p"])
        (use l(3) p q bnd Cons in \<open>auto simp: h'_def nth_list_update nth_append\<close>)
    moreover have "path prev h' (Some p) (p # rev as) None"
      by (rule path_cong [OF l(4)]) (use p q bnd in \<open>auto simp: h'_def nth_list_update nth_append\<close>)
    moreover have "next (h' ! ?n) = Some q" "prev (h' ! ?n) = Some p" "length h' = Suc ?n"
      using p q by (auto simp: h'_def nth_list_update nth_append)
    ultimately have "dll h' l (as @ p # ?n # bs)"
      using p q Cons nx unfolding dll_def by (auto simp: path_append)
    moreover have "data (h' ! ?n) = d" "\<forall>x < ?n. data (h' ! x) = data (h ! x)"
      "\<forall>x < ?n. x \<noteq> p \<longrightarrow> x \<notin> set bs \<longrightarrow> h' ! x = h ! x"
      using p q Cons by (auto simp: h'_def nth_list_update nth_append)
    ultimately show ?thesis using run \<open>length h' = Suc ?n\<close> by simp
  qed
qed

section \<open>Well-formed caches\<close>

lemma wf_New:
  assumes "New cap = Inr l"
  shows "wf l [(0, [])] \<and> flat l [(0, [])] = [] \<and> index l = Mapping.empty"
  using assms
  by (auto simp: New_def Let_def add_def new_node_def addNode_def deref_def wf_def dll_def cells_def flat_def
      bucket_ok_def ascending_def indexed_def split: if_splits)

lemma indexed_distinct: "indexed ix eh cs \<Longrightarrow> distinct cs"
  unfolding indexed_def by (auto simp: distinct_map)

lemma indexed_keys: "indexed ix eh cs \<Longrightarrow> Mapping.keys ix = (\<lambda>e. key (data (eh ! e))) ` set cs"
  unfolding indexed_def by (auto simp: Mapping.keys_dom_lookup dom_def)

lemma indexed_size: "indexed ix eh cs \<Longrightarrow> Mapping.size ix = length cs"
proof -
  assume w: "indexed ix eh cs"
  have "card ((\<lambda>e. key (data (eh ! e))) ` set cs) = length cs"
    using w distinct_card [of "map (\<lambda>e. key (data (eh ! e))) cs"]
    by (simp add: indexed_def)
  then show ?thesis
    using indexed_keys [OF w] by (simp add: Mapping.size_def keys_def[symmetric])
qed

lemma wf_Size: "wf l B \<Longrightarrow> Size l = int (length (cells B))"
  using indexed_size [of "index l" "eheap l" "cells B"] by (simp add: wf_def Size_def)

lemma bucket_ok_frame:
  assumes "bucket_ok eh bh (b, es)" "length eh \<le> length eh'" "\<And>e. e \<in> set es \<Longrightarrow> eh' ! e = eh ! e"
    "entries (data (bh' ! b)) = entries (data (bh ! b))"
  shows "bucket_ok eh' bh' (b, es)"
  using assms dll_frame [of eh "entries (data (bh ! b))" es eh'] by (auto simp: bucket_ok_def)

lemma ascending_frame:
  "ascending bh bs \<Longrightarrow> (\<And>b. b \<in> set bs \<Longrightarrow> freq (data (bh' ! b)) = freq (data (bh ! b))) \<Longrightarrow> bs \<noteq> [] \<Longrightarrow> ascending bh' bs"
proof -
  assume a: "ascending bh bs" "\<And>b. b \<in> set bs \<Longrightarrow> freq (data (bh' ! b)) = freq (data (bh ! b))" "bs \<noteq> []"
  have eq: "map (\<lambda>b. freq (data (bh' ! b))) bs = map (\<lambda>b. freq (data (bh ! b))) bs"
    by (rule map_cong) (auto simp: a(2))
  show ?thesis unfolding ascending_def eq using a by (simp add: ascending_def)
qed

text \<open>The eviction scan.\<close>

lemma evict_scan_found:
  "path next bh p (bs @ [c]) q \<Longrightarrow> (\<And>b. b \<in> set bs \<Longrightarrow> isEmpty (entries (data (bh ! b)))) \<Longrightarrow>
   \<not> isEmpty (entries (data (bh ! c))) \<Longrightarrow> evict_scan bh p = Some c"
proof (induction bs arbitrary: p)
  case Nil
  then show ?case by (subst evict_scan.simps) (simp add: deref_def)
next
  case (Cons b bs)
  then show ?case by (subst evict_scan.simps) (simp add: deref_def)
qed

lemma evict_scan_nil:
  "path next bh p bs None \<Longrightarrow> (\<And>b. b \<in> set bs \<Longrightarrow> isEmpty (entries (data (bh ! b)))) \<Longrightarrow>
   evict_scan bh p = None"
proof (induction bs arbitrary: p)
  case Nil
  then show ?case by (subst evict_scan.simps) (simp add: deref_def)
next
  case (Cons b bs)
  then show ?case by (subst evict_scan.simps) (simp add: deref_def)
qed

text \<open>The first bucket that holds an entry.\<close>

lemma first_nonempty:
  assumes "cells B \<noteq> []"
  shows "\<exists>B1 c e es B2. B = B1 @ (c, e # es) # B2 \<and> (\<forall>x \<in> set B1. snd x = [])"
  using assms
proof (induction B)
  case Nil
  then show ?case by (simp add: cells_def)
next
  case (Cons x B)
  show ?case
  proof (cases "snd x")
    case Nil
    with Cons.prems have "cells B \<noteq> []" by (simp add: cells_def)
    from Cons.IH [OF this] obtain B1 c e es B2 where "B = B1 @ (c, e # es) # B2" "\<forall>x \<in> set B1. snd x = []"
      by blast
    with Nil have "x # B = (x # B1) @ (c, e # es) # B2 \<and> (\<forall>y \<in> set (x # B1). snd y = [])" by simp
    then show ?thesis by blast
  next
    case (Cons e es)
    then have "x # B = [] @ (fst x, e # es) # B \<and> (\<forall>y \<in> set []. snd y = [])"
      by (cases x) simp
    then show ?thesis by blast
  qed
qed


text \<open>Writing a list header back.\<close>

lemma length_set_entries [simp]: "length (set_entries bh b L) = length bh"
  by (simp add: set_entries_def)

lemma next_set_entries [simp]: "next (set_entries bh b L ! x) = next (bh ! x)"
  by (cases "b < length bh") (auto simp: set_entries_def nth_list_update list_update_beyond)

lemma prev_set_entries [simp]: "prev (set_entries bh b L ! x) = prev (bh ! x)"
  by (cases "b < length bh") (auto simp: set_entries_def nth_list_update list_update_beyond)

lemma freq_set_entries [simp]: "freq (data (set_entries bh b L ! x)) = freq (data (bh ! x))"
  by (cases "b < length bh") (auto simp: set_entries_def nth_list_update list_update_beyond)

lemma entries_set_entries:
  "b < length bh \<Longrightarrow> entries (data (set_entries bh b L ! x)) = (if x = b then L else entries (data (bh ! x)))"
  by (auto simp: set_entries_def nth_list_update)

lemma dll_set_entries: "dll bh s bs \<Longrightarrow> dll (set_entries bh b L) s bs"
  by (erule dll_links) simp_all

lemma ascending_set_entries: "ascending (set_entries bh b L) bs = ascending bh bs"
  by (simp add: ascending_def)

text \<open>Layouts.\<close>

lemma cells_Nil [simp]: "cells [] = []"
  by (simp add: cells_def)

lemma cells_Cons [simp]: "cells (x # B) = snd x @ cells B"
  by (simp add: cells_def)

lemma cells_append [simp]: "cells (A @ B) = cells A @ cells B"
  by (simp add: cells_def)

lemma cells_empty: "(\<forall>x \<in> set B. snd x = []) \<Longrightarrow> cells B = []"
  by (induction B) auto

lemma in_cells: "(b, es) \<in> set B \<Longrightarrow> e \<in> set es \<Longrightarrow> e \<in> set (cells B)"
  by (induction B) auto

lemma wf_buckets_distinct: "wf l B \<Longrightarrow> distinct (map fst B)"
  by (simp add: wf_def dll_def)

lemma wf_cells_distinct: "wf l B \<Longrightarrow> distinct (cells B)"
  using indexed_distinct [of "index l" "eheap l" "cells B"] by (simp add: wf_def)

lemma entry_eq:
  "data (eheap l' ! e) = data (eheap l ! e) \<Longrightarrow>
   (\<And>b. freq (data (bheap l' ! b)) = freq (data (bheap l ! b))) \<Longrightarrow> entry l' e = entry l e"
  by (simp add: entry_def Let_def split: option.splits)

lemma lookup_delete_if:
  "Mapping.lookup (Mapping.delete k m) k' = (if k = k' then None else Mapping.lookup m k')"
  by simp

lemma indexed_delete:
  assumes "indexed ix eh (e # cs)" "\<And>x. data (eh' ! x) = data (eh ! x)"
  shows "indexed (Mapping.delete (key (data (eh ! e))) ix) eh' cs"
  using assms unfolding indexed_def
  by (auto simp: lookup_delete_if image_iff)


text \<open>Eviction removes the head of the first bucket that is not empty: the first entry
  of the ranking.\<close>

lemma evict_wf:
  assumes w: "wf l B" and ne: "cells B \<noteq> []"
  shows "\<exists>l' B'. evict l = Some l' \<and> wf l' B' \<and> flat l' B' = tl (flat l B) \<and>
           capacity l' = capacity l \<and>
           index l' = Mapping.delete (fst (hd (flat l B))) (index l) \<and> sequence l' = sequence l"
proof -
  obtain B1 c e es B2 where B: "B = B1 @ (c, e # es) # B2" and emp: "\<forall>x \<in> set B1. snd x = []"
    using first_nonempty [OF ne] by blast
  let ?bh = "bheap l" and ?eh = "eheap l"
  have cB: "cells B = e # es @ cells B2"
    using emp by (simp add: B cells_empty)
  have seq: "dll ?bh (sequence l) (map fst B1 @ c # map fst B2)"
    using w by (simp add: wf_def B)
  have bok: "\<And>x. x \<in> set B \<Longrightarrow> bucket_ok ?eh ?bh x"
    using w by (simp add: wf_def)
  have c_ok: "dll ?eh (entries (data (?bh ! c))) (e # es)"
    using bok [of "(c, e # es)"] by (simp add: B bucket_ok_def)
  have c_len: "c < length ?bh"
    using dll_bound [OF seq, of c] by simp
  have dB: "distinct (map fst B)" "distinct (cells B)"
    using w by (auto dest: wf_buckets_distinct wf_cells_distinct)
  have e1: "\<And>b. b \<in> set (map fst B1) \<Longrightarrow> isEmpty (entries (data (?bh ! b)))"
  proof -
    fix b assume "b \<in> set (map fst B1)"
    then obtain xs where x: "(b, xs) \<in> set B1" by auto
    then have "xs = []" using emp by auto
    with bok [of "(b, xs)"] x show "isEmpty (entries (data (?bh ! b)))"
      by (simp add: B bucket_ok_def dll_Nil isEmpty_def)
  qed
  have e2: "\<not> isEmpty (entries (data (?bh ! c)))"
    using dll_isEmpty [OF c_ok] by simp
  have e3: "path next ?bh (head (sequence l)) (map fst B1 @ [c]) (next (?bh ! c))"
    using seq by (auto simp: dll_def path_append)
  have scan: "evict_scan ?bh (head (sequence l)) = Some c"
    using evict_scan_found [OF e3 e1 e2] by simp
  have hd: "head (entries (data (?bh ! c))) = Some e"
    using dll_head [OF c_ok] by simp
  obtain eh1 L1 where rm: "remove_node ?eh (entries (data (?bh ! c))) (Some e) = Some (eh1, L1)"
    and L1: "dll eh1 L1 es" and len1: "length eh1 = length ?eh"
    and data1: "\<And>x. data (eh1 ! x) = data (?eh ! x)"
    and frame1: "\<And>x. x \<notin> set es \<Longrightarrow> eh1 ! x = ?eh ! x"
    using remove_node_dll [of ?eh "entries (data (?bh ! c))" "[]" e es] c_ok by auto
  have e_len: "e < length eh1"
    using dll_bound [OF c_ok, of e] len1 by simp
  define l' where "l' = l\<lparr>index := Mapping.delete (key (data (?eh ! e))) (index l), eheap := eh1,
    bheap := set_entries ?bh c L1\<rparr>"
  define B' where "B' = B1 @ (c, es) # B2"
  have run: "evict l = Some l'"
    by (simp add: evict_def scan hd rm deref_def e_len data1 l'_def)
  have "dll (bheap l') (sequence l') (map fst B')"
    using seq by (simp add: l'_def B'_def dll_set_entries)
  moreover have "bucket_ok (eheap l') (bheap l') x" if "x \<in> set B'" for x
  proof (cases "x = (c, es)")
    case True
    have "\<And>y. y \<in> set es \<Longrightarrow> container (data (?eh ! y)) = Some c"
      using bok [of "(c, e # es)"] by (simp add: B bucket_ok_def)
    then show ?thesis
      using L1 c_len by (simp add: True bucket_ok_def l'_def entries_set_entries data1)
  next
    case False
    then have xB: "x \<in> set B1 \<or> x \<in> set B2" using that by (auto simp: B'_def)
    obtain b xs where x: "x = (b, xs)" by (cases x)
    have "b \<noteq> c" using xB dB(1) x by (force simp: B)
    moreover have "set xs \<inter> set es = {}"
      using xB dB(2) x emp by (fastforce simp: B cells_empty dest: in_cells)
    ultimately show ?thesis
      unfolding x l'_def using bok [of "(b, xs)"] xB x c_len len1
      by (auto intro!: bucket_ok_frame [where eh = ?eh and bh = ?bh] frame1
          simp: B entries_set_entries)
  qed
  moreover have "ascending (bheap l') (map fst B')"
    using w by (simp add: wf_def l'_def B'_def B ascending_set_entries)
  moreover have "indexed (index l') (eheap l') (cells B')"
    using w indexed_delete [of "index l" ?eh e "es @ cells B2" eh1] emp
    by (simp add: wf_def l'_def B'_def cB cells_empty data1)
  ultimately have "wf l' B'"
    by (simp add: wf_def B'_def)
  moreover have "\<And>x. entry l' x = entry l x"
    by (rule entry_eq) (simp_all add: l'_def data1)
  then have "flat l' B' = tl (flat l B)"
    using emp by (simp add: flat_def B'_def cB cells_empty)
  moreover have "index l' = Mapping.delete (fst (hd (flat l B))) (index l)"
    by (simp add: l'_def flat_def cB entry_def Let_def)
  moreover have "capacity l' = capacity l" "sequence l' = sequence l"
    by (simp_all add: l'_def)
  ultimately show ?thesis using run \<open>flat l' B' = tl (flat l B)\<close> by blast
qed

section \<open>Inserting a new entry\<close>

lemma promote_split:
  assumes "\<And>y. y \<in> set L \<Longrightarrow> snd (snd y) \<le> snd (snd x)" "\<And>y. y \<in> set R \<Longrightarrow> snd (snd x) < snd (snd y)"
  shows "promote x (L @ R) = L @ x # R"
proof -
  let ?P = "\<lambda>y. snd (snd y) \<le> snd (snd x)"
  have R: "takeWhile ?P R = []" "dropWhile ?P R = R"
    using assms(2) by (cases R; force)+
  have "takeWhile ?P (L @ R) = L @ takeWhile ?P R" "dropWhile ?P (L @ R) = dropWhile ?P R"
    using assms(1) by (simp_all add: takeWhile_append2 dropWhile_append2)
  then show ?thesis by (simp add: promote_def R)
qed

lemma indexed_update:
  assumes "indexed ix eh cs" "Mapping.lookup ix k = None" "key (data (eh' ! n)) = k" "n \<notin> set cs"
    "\<And>x. x \<in> set cs \<Longrightarrow> data (eh' ! x) = data (eh ! x)" "set cs' = insert n (set cs)" "distinct cs'"
  shows "indexed (Mapping.update k (Some n) ix) eh' cs'"
proof -
  have nk: "\<And>e. e \<in> set cs \<Longrightarrow> key (data (eh ! e)) \<noteq> k"
    using assms(1,2) unfolding indexed_def by (metis option.distinct(1))
  have inj: "inj_on (\<lambda>e. key (data (eh ! e))) (set cs)"
    using assms(1) by (simp add: indexed_def distinct_map)
  have "inj_on (\<lambda>e. key (data (eh' ! e))) (set cs')"
    unfolding assms(6) using inj nk assms(3,4,5)
    by (fastforce simp: inj_on_def)
  then have "distinct (map (\<lambda>e. key (data (eh' ! e))) cs')"
    using assms(7) by (simp add: distinct_map)
  moreover have "\<And>k' p. Mapping.lookup (Mapping.update k (Some n) ix) k' = Some p \<longleftrightarrow>
        (\<exists>e \<in> set cs'. p = Some e \<and> key (data (eh' ! e)) = k')"
    using assms(1,3,4,5) nk unfolding assms(6) indexed_def
    by (auto simp: lookup_update')
  ultimately show ?thesis by (simp add: indexed_def)
qed


lemma Put_absent:
  "Mapping.lookup (index l) k = None \<Longrightarrow>
   Put l k v = (if Size l + 1 > Capacity l then evict l else Some l) \<bind> (\<lambda>l. insert_new l k v)"
  by (simp add: Put_def insert_new_def)

lemma wf_cells_bound: "wf l B \<Longrightarrow> e \<in> set (cells B) \<Longrightarrow> e < length (eheap l)"
  unfolding wf_def cells_def bucket_ok_def by (fastforce dest: dll_bound)

lemma entry_freq:
  "bucket_ok (eheap l) (bheap l) (b, es) \<Longrightarrow> e \<in> set es \<Longrightarrow>
   snd (snd (entry l e)) = freq (data (bheap l ! b))"
  by (simp add: bucket_ok_def entry_def Let_def)

lemma insert_new_wf:
  assumes w: "wf l B" and nk: "Mapping.lookup (index l) k = None"
  shows "\<exists>l' B'. insert_new l k v = Some l' \<and> wf l' B' \<and> flat l' B' = promote (k, v, 1) (flat l B) \<and>
           capacity l' = capacity l \<and> index l' = Mapping.update k (Some (length (eheap l))) (index l) \<and>
           sequence l' = sequence l"
proof -
  let ?bh = "bheap l" and ?eh = "eheap l" and ?n = "length (eheap l)"
  obtain b0 es0 Br where B: "B = (b0, es0) # Br"
    using w by (cases B) (auto simp: wf_def)
  have seq: "dll ?bh (sequence l) (b0 # map fst Br)"
    using w by (simp add: wf_def B)
  have bok: "\<And>x. x \<in> set B \<Longrightarrow> bucket_ok ?eh ?bh x"
    using w by (simp add: wf_def)
  have b0_ok: "dll ?eh (entries (data (?bh ! b0))) es0"
    using bok [of "(b0, es0)"] by (simp add: B bucket_ok_def)
  have b0_len: "b0 < length ?bh"
    using dll_bound [OF seq, of b0] by simp
  have hd: "head (sequence l) = Some b0"
    using dll_head [OF seq] by simp
  have dB: "distinct (map fst B)" "distinct (cells B)"
    using w by (auto dest: wf_buckets_distinct wf_cells_distinct)
  have bnd: "\<And>e. e \<in> set (cells B) \<Longrightarrow> e < ?n"
    using w by (rule wf_cells_bound)
  have nn: "?n \<notin> set (cells B)"
    using bnd by blast
  have f1: "freq (data (?bh ! b0)) = 1"
    using w by (simp add: wf_def ascending_def B)
  have fr: "\<And>b. b \<in> fst ` set Br \<Longrightarrow> 1 < freq (data (?bh ! b))"
    using w f1 by (auto simp: wf_def ascending_def B)
  let ?d = "\<lparr>key = k, value = v, container = Some b0\<rparr>"
  obtain eh1 L1 where ad: "add ?eh (entries (data (?bh ! b0))) ?d = Some (Some ?n, eh1, L1)"
    and L1: "dll eh1 L1 (es0 @ [?n])" and len1: "length eh1 = Suc ?n"
    and new1: "data (eh1 ! ?n) = ?d"
    and data1: "\<And>x. x < ?n \<Longrightarrow> data (eh1 ! x) = data (?eh ! x)"
    and frame1: "\<And>x. x < ?n \<Longrightarrow> x \<notin> set es0 \<Longrightarrow> eh1 ! x = ?eh ! x"
    using add_dll [OF b0_ok, of ?d] by auto
  define l' where "l' = l\<lparr>index := Mapping.update k (Some ?n) (index l), eheap := eh1,
    bheap := set_entries ?bh b0 L1\<rparr>"
  define B' where "B' = (b0, es0 @ [?n]) # Br"
  have run: "insert_new l k v = Some l'"
    by (simp add: insert_new_def hd deref_def b0_len ad l'_def)
  have "dll (bheap l') (sequence l') (map fst B')"
    using seq by (simp add: l'_def B'_def dll_set_entries)
  moreover have bok': "bucket_ok (eheap l') (bheap l') x" if "x \<in> set B'" for x
  proof (cases "x = (b0, es0 @ [?n])")
    case True
    have "\<And>y. y \<in> set es0 \<Longrightarrow> container (data (?eh ! y)) = Some b0 \<and> y < ?n"
      using bok [of "(b0, es0)"] bnd by (simp add: B bucket_ok_def)
    then show ?thesis
      using L1 b0_len by (auto simp: True bucket_ok_def l'_def entries_set_entries data1 new1)
  next
    case False
    then have xB: "x \<in> set Br" using that by (auto simp: B'_def)
    obtain b xs where x: "x = (b, xs)" by (cases x)
    have "b \<noteq> b0" using xB dB(1) x by (force simp: B)
    moreover have "set xs \<inter> set es0 = {}" "\<And>y. y \<in> set xs \<Longrightarrow> y < ?n"
      using xB dB(2) x bnd by (fastforce simp: B dest: in_cells)+
    ultimately show ?thesis
      unfolding x l'_def using bok [of "(b, xs)"] xB x b0_len len1
      by (auto intro!: bucket_ok_frame [where eh = ?eh and bh = ?bh] frame1
          simp: B entries_set_entries)
  qed
  moreover have "ascending (bheap l') (map fst B')"
    using w by (simp add: wf_def l'_def B'_def B ascending_set_entries)
  moreover have "indexed (Mapping.update k (Some ?n) (index l)) eh1 (cells B')"
  proof (rule indexed_update [where eh = ?eh and cs = "cells B"])
    show "indexed (index l) ?eh (cells B)" using w by (simp add: wf_def)
    show "Mapping.lookup (index l) k = None" by fact
    show "key (data (eh1 ! ?n)) = k" by (simp add: new1)
    show "?n \<notin> set (cells B)" by fact
    show "\<And>x. x \<in> set (cells B) \<Longrightarrow> data (eh1 ! x) = data (?eh ! x)" using bnd data1 by simp
    show "set (cells B') = insert ?n (set (cells B))" by (auto simp: B'_def B)
    show "distinct (cells B')" using dB(2) nn by (auto simp: B'_def B)
  qed
  then have "indexed (index l') (eheap l') (cells B')"
    by (simp add: l'_def)
  ultimately have "wf l' B'"
    using \<open>indexed (index l') (eheap l') (cells B')\<close> by (simp add: wf_def B'_def)
  moreover have ent: "\<And>x. x < ?n \<Longrightarrow> entry l' x = entry l x"
    by (rule entry_eq) (simp_all add: l'_def data1)
  have "entry l' ?n = (k, v, 1)"
    using b0_len f1 by (simp add: entry_def l'_def new1)
  moreover have "\<And>y. y \<in> set (map (entry l) es0) \<Longrightarrow> snd (snd y) \<le> 1"
    using entry_freq [OF bok [of "(b0, es0)"]] f1 by (auto simp: B)
  moreover have "\<And>y. y \<in> set (map (entry l) (cells Br)) \<Longrightarrow> 1 < snd (snd y)"
  proof -
    fix y assume "y \<in> set (map (entry l) (cells Br))"
    then obtain e b xs where e: "y = entry l e" "(b, xs) \<in> set Br" "e \<in> set xs"
      by (auto simp: cells_def)
    then show "1 < snd (snd y)"
      using entry_freq [OF bok [of "(b, xs)"], of e] fr [of b] by (force simp: B)
  qed
  ultimately have "flat l' B' = promote (k, v, 1) (flat l B)"
    using ent bnd promote_split [of "map (entry l) es0" "(k, v, 1)" "map (entry l) (cells Br)"]
    by (simp add: flat_def B'_def B)
  moreover have "capacity l' = capacity l" "index l' = Mapping.update k (Some ?n) (index l)"
    "sequence l' = sequence l"
    by (simp_all add: l'_def)
  ultimately show ?thesis using run \<open>wf l' B'\<close> by blast
qed

section \<open>Touching an entry\<close>

lemma touch_unfold:
  "touch l n = do {
     na \<leftarrow> deref (eheap l) n;
     let c = container (data (eheap l ! na));
     ca \<leftarrow> deref (bheap l) c;
     (eh, es) \<leftarrow> remove_node (eheap l) (entries (data (bheap l ! ca))) n;
     (target, bh, s) \<leftarrow> touch_target (set_entries (bheap l) ca es) (sequence l) c ca
                          (freq (data (bheap l ! ca)) + 1);
     ta \<leftarrow> deref bh target;
     (_, eh, ts) \<leftarrow> addNode eh (entries (data (bh ! ta))) n;
     (bh, s) \<leftarrow> touch_drop (set_entries bh ta ts) s c ca;
     Some (l\<lparr>sequence := s, eheap := set_container eh na target, bheap := bh\<rparr>)
   }"
  unfolding touch_def touch_target_def touch_drop_def set_container_def Let_def ..

lemma sorted_mid:
  "sorted_wrt (<) (map g (as @ c # bs)) \<Longrightarrow>
   (\<forall>a \<in> set as. g a < g c) \<and> (\<forall>b \<in> set bs. g c < g b) \<and> (\<forall>a \<in> set as. \<forall>b \<in> set bs. g a < g b)"
  by (auto simp: sorted_wrt_append)

lemma touch_target_spec:
  fixes bh :: "sameFreqContainer heap"
  assumes seq: "dll bh s (as @ c # bs)"
    and srt: "sorted_wrt (<) (map (\<lambda>b. freq (data (bh ! b))) (as @ c # bs))"
  shows "\<exists>t bh' s' bs'. touch_target bh s (Some c) c (freq (data (bh ! c)) + 1) = Some (Some t, bh', s') \<and>
          dll bh' s' (as @ c # t # bs') \<and>
          freq (data (bh' ! t)) = freq (data (bh ! c)) + 1 \<and>
          (\<forall>x < length bh. data (bh' ! x) = data (bh ! x)) \<and> length bh \<le> length bh' \<and>
          (\<forall>b \<in> set bs'. freq (data (bh ! c)) + 1 < freq (data (bh ! b))) \<and>
          (bs = t # bs' \<and> bh' = bh \<and> s' = s \<or>
           t = length bh \<and> bs' = bs \<and> entries (data (bh' ! t)) = \<lparr>head = None, tail = None\<rparr>)"
proof -
  let ?f = "freq (data (bh ! c))"
  let ?bucket = "\<lparr>freq = ?f + 1, entries = \<lparr>head = None, tail = None\<rparr>\<rparr>"
  have nx: "next (bh ! c) = (case bs of [] \<Rightarrow> None | b # _ \<Rightarrow> Some b)"
    using seq by (rule dll_mid_next)
  have gt: "\<And>b. b \<in> set bs \<Longrightarrow> ?f < freq (data (bh ! b))"
    using sorted_mid [OF srt] by blast
  have bnd: "\<And>b. b \<in> set bs \<Longrightarrow> b < length bh"
    using dll_bound [OF seq] by simp
  obtain bh' s' where ins: "insertAfter bh s (Some c) ?bucket = Some (Some (length bh), bh', s')"
    and ins_dll: "dll bh' s' (as @ c # length bh # bs)" and ins_len: "length bh' = Suc (length bh)"
    and ins_new: "data (bh' ! length bh) = ?bucket"
    and ins_old: "\<And>x. x < length bh \<Longrightarrow> data (bh' ! x) = data (bh ! x)"
    using insertAfter_dll [OF seq, of ?bucket] by auto
  have new: ?thesis if "\<And>b. b \<in> set bs \<Longrightarrow> ?f + 1 < freq (data (bh ! b))"
    and "touch_target bh s (Some c) c (?f + 1) = insertAfter bh s (Some c) ?bucket"
    using that ins ins_dll ins_len ins_new ins_old
    by (intro exI [of _ "length bh"] exI [of _ bh'] exI [of _ s'] exI [of _ bs]) simp
  show ?thesis
  proof (cases bs)
    case Nil
    then show ?thesis
      using nx by (intro new) (simp_all add: touch_target_def)
  next
    case (Cons t bs')
    show ?thesis
    proof (cases "freq (data (bh ! t)) > ?f + 1")
      case True
      have "\<And>b. b \<in> set bs \<Longrightarrow> ?f + 1 < freq (data (bh ! b))"
        using True srt Cons by (auto simp: sorted_wrt_append)
      then show ?thesis
        using nx Cons True bnd [of t] by (intro new) (simp_all add: touch_target_def deref_def)
    next
      case False
      then have ft: "freq (data (bh ! t)) = ?f + 1"
        using gt [of t] Cons by simp
      have "touch_target bh s (Some c) c (?f + 1) = Some (Some t, bh, s)"
        using nx Cons False bnd [of t] by (simp add: touch_target_def deref_def)
      moreover have "\<And>b. b \<in> set bs' \<Longrightarrow> ?f + 1 < freq (data (bh ! b))"
        using ft srt Cons by (auto simp: sorted_wrt_append)
      ultimately show ?thesis
        using seq ft Cons
        by (intro exI [of _ t] exI [of _ bh] exI [of _ s] exI [of _ bs']) simp
    qed
  qed
qed


lemma set_container_simps [simp]:
  "length (set_container eh n t) = length eh"
  "next (set_container eh n t ! x) = next (eh ! x)"
  "prev (set_container eh n t ! x) = prev (eh ! x)"
  "key (data (set_container eh n t ! x)) = key (data (eh ! x))"
  "value (data (set_container eh n t ! x)) = value (data (eh ! x))"
  by (cases "n < length eh"; auto simp: set_container_def nth_list_update list_update_beyond)+

lemma container_set_container:
  "n < length eh \<Longrightarrow> container (data (set_container eh n t ! x)) = (if x = n then t else container (data (eh ! x)))"
  by (auto simp: set_container_def nth_list_update)

lemma set_container_other: "x \<noteq> n \<Longrightarrow> set_container eh n t ! x = eh ! x"
  by (simp add: set_container_def)

lemma touch_drop_spec:
  fixes bh :: "sameFreqContainer heap"
  assumes seq: "dll bh s (as @ c # bs)"
  shows "\<exists>bh' s' cs. touch_drop bh s (Some c) c = Some (bh', s') \<and> dll bh' s' (as @ cs @ bs) \<and>
           (\<forall>x. data (bh' ! x) = data (bh ! x)) \<and> length bh' = length bh \<and>
           (cs = [] \<and> isEmpty (entries (data (bh ! c))) \<and> freq (data (bh ! c)) > 1 \<or>
            cs = [c] \<and> \<not> (isEmpty (entries (data (bh ! c))) \<and> freq (data (bh ! c)) > 1))"
proof (cases "isEmpty (entries (data (bh ! c))) \<and> freq (data (bh ! c)) > 1")
  case True
  obtain bh' s' where "remove_node bh s (Some c) = Some (bh', s')" "dll bh' s' (as @ bs)"
    "length bh' = length bh" "\<forall>x. data (bh' ! x) = data (bh ! x)"
    using remove_node_dll [OF seq] by auto
  then show ?thesis
    using True by (intro exI [of _ bh'] exI [of _ s'] exI [of _ "[]"]) (simp add: touch_drop_def)
next
  case False
  then have "touch_drop bh s (Some c) c = Some (bh, s)"
    unfolding touch_drop_def by (rule if_not_P)
  then show ?thesis
    using seq False by (intro exI [of _ bh] exI [of _ s] exI [of _ "[c]"]) simp
qed

lemma indexed_perm:
  assumes "indexed ix eh cs" "\<And>x. key (data (eh' ! x)) = key (data (eh ! x))" "set cs' = set cs" "distinct cs'"
  shows "indexed ix eh' cs'"
proof -
  have "inj_on (\<lambda>e. key (data (eh ! e))) (set cs)"
    using assms(1) by (simp add: indexed_def distinct_map)
  then have "distinct (map (\<lambda>e. key (data (eh' ! e))) cs')"
    using assms(2,3,4) by (simp add: distinct_map)
  then show ?thesis
    using assms(1,2,3) by (simp add: indexed_def)
qed

lemma without_mid:
  assumes "distinct (map fst (L @ x # R))"
  shows "without (fst x) (L @ x # R) = L @ R"
proof -
  have a: "fst x \<notin> fst ` set L" "fst x \<notin> fst ` set R"
    using assms by auto
  have "\<forall>y \<in> set L. fst y \<noteq> fst x"
    using a(1) by (metis imageI)
  moreover have "\<forall>y \<in> set R. fst y \<noteq> fst x"
    using a(2) by (metis imageI)
  ultimately
  have "filter (\<lambda>y. fst y \<noteq> fst x) L = L" "filter (\<lambda>y. fst y \<noteq> fst x) R = R"
    by (simp_all add: filter_id_conv)
  then show ?thesis by (simp add: without_def)
qed

lemma fst_entry [simp]: "fst (entry l e) = key (data (eheap l ! e))"
  by (simp add: entry_def Let_def)

lemma sorted_wrt_map_cong:
  "sorted_wrt (<) (map g0 xs) \<Longrightarrow> (\<And>x. x \<in> set xs \<Longrightarrow> g x = g0 x) \<Longrightarrow> sorted_wrt (<) (map g xs)"
  by (simp cong: map_cong)

lemma cells_home: "y \<in> set (cells A) \<Longrightarrow> \<exists>b xs. (b, xs) \<in> set A \<and> y \<in> set xs"
  by (induction A) (auto, blast+)

lemma touch_wf:
  assumes w: "wf l B" and n: "n \<in> set (cells B)"
  shows "\<exists>l' B'. touch l (Some n) = Some l' \<and> wf l' B' \<and>
           flat l' B' = promote (fst (entry l n), fst (snd (entry l n)), snd (snd (entry l n)) + 1)
                          (without (fst (entry l n)) (flat l B)) \<and>
           capacity l' = capacity l \<and> index l' = index l \<and> set (cells B') = set (cells B) \<and>
           (\<forall>x. key (data (eheap l' ! x)) = key (data (eheap l ! x)) \<and>
                value (data (eheap l' ! x)) = value (data (eheap l ! x))) \<and>
           head (sequence l') = head (sequence l)"
proof -
  let ?bh = "bheap l" and ?eh = "eheap l"
  obtain c es where ces: "(c, es) \<in> set B" "n \<in> set es"
    using n by (auto simp: cells_def)
  obtain B1 B2 where B: "B = B1 @ (c, es) # B2"
    using split_list [OF ces(1)] by blast
  obtain es1 es2 where es: "es = es1 @ n # es2"
    using split_list [OF ces(2)] by blast
  let ?f = "freq (data (?bh ! c))"
  have seq: "dll ?bh (sequence l) (map fst B1 @ c # map fst B2)"
    using w by (simp add: wf_def B)
  have asc: "ascending ?bh (map fst B1 @ c # map fst B2)"
    using w by (simp add: wf_def B)
  then have srt: "sorted_wrt (<) (map (\<lambda>b. freq (data (?bh ! b))) (map fst B1 @ c # map fst B2))"
    by (simp add: ascending_def)
  have bok: "\<And>x. x \<in> set B \<Longrightarrow> bucket_ok ?eh ?bh x"
    using w by (simp add: wf_def)
  have c_ok: "dll ?eh (entries (data (?bh ! c))) (es1 @ n # es2)"
    and c_cont: "\<And>e. e \<in> set es \<Longrightarrow> container (data (?eh ! e)) = Some c"
    using bok [of "(c, es)"] by (auto simp: B bucket_ok_def es)
  have cont: "container (data (?eh ! n)) = Some c"
    using c_cont [of n] by (simp add: es)
  have c_len: "c < length ?bh"
    using dll_bound [OF seq, of c] by simp
  have bnd: "\<And>e. e \<in> set (cells B) \<Longrightarrow> e < length ?eh"
    using w by (rule wf_cells_bound)
  have n_len: "n < length ?eh"
    using bnd n by simp
  have dB: "distinct (map fst B)" "distinct (cells B)"
    using w by (auto dest: wf_buckets_distinct wf_cells_distinct)
  have old_len: "\<And>b. b \<in> fst ` set B \<Longrightarrow> b < length ?bh"
    using dll_bound [OF seq] by (auto simp: B)
  \<comment> \<open>the entry leaves its list\<close>
  obtain eh1 L1 where rm: "remove_node ?eh (entries (data (?bh ! c))) (Some n) = Some (eh1, L1)"
    and L1: "dll eh1 L1 (es1 @ es2)" and len1: "length eh1 = length ?eh"
    and data1: "\<And>x. data (eh1 ! x) = data (?eh ! x)"
    and frame1: "\<And>x. x \<notin> set es1 \<Longrightarrow> x \<notin> set es2 \<Longrightarrow> eh1 ! x = ?eh ! x"
    using remove_node_dll [OF c_ok] by auto
  define bh1 where "bh1 = set_entries ?bh c L1"
  have seq1: "dll bh1 (sequence l) (map fst B1 @ c # map fst B2)"
    using seq by (simp add: bh1_def dll_set_entries)
  have srt1: "sorted_wrt (<) (map (\<lambda>b. freq (data (bh1 ! b))) (map fst B1 @ c # map fst B2))"
    using srt by (simp add: bh1_def)
  \<comment> \<open>the target bucket\<close>
  obtain t bh2 s2 bs' where T:
    "touch_target bh1 (sequence l) (Some c) c (freq (data (bh1 ! c)) + 1) = Some (Some t, bh2, s2) \<and>
     dll bh2 s2 (map fst B1 @ c # t # bs') \<and>
     freq (data (bh2 ! t)) = freq (data (bh1 ! c)) + 1 \<and>
     (\<forall>x < length bh1. data (bh2 ! x) = data (bh1 ! x)) \<and> length bh1 \<le> length bh2 \<and>
     (\<forall>b \<in> set bs'. freq (data (bh1 ! c)) + 1 < freq (data (bh1 ! b))) \<and>
     (map fst B2 = t # bs' \<and> bh2 = bh1 \<and> s2 = sequence l \<or>
      t = length bh1 \<and> bs' = map fst B2 \<and> entries (data (bh2 ! t)) = \<lparr>head = None, tail = None\<rparr>)"
    using touch_target_spec [OF seq1 srt1] by (elim exE) (rule that)
  have tg: "touch_target bh1 (sequence l) (Some c) c (freq (data (bh1 ! c)) + 1) = Some (Some t, bh2, s2)"
    and seq2: "dll bh2 s2 (map fst B1 @ c # t # bs')"
    and ft: "freq (data (bh2 ! t)) = freq (data (bh1 ! c)) + 1"
    and old2: "\<And>x. x < length bh1 \<Longrightarrow> data (bh2 ! x) = data (bh1 ! x)"
    and len2: "length bh1 \<le> length bh2"
    and gt2: "\<And>b. b \<in> set bs' \<Longrightarrow> freq (data (bh1 ! c)) + 1 < freq (data (bh1 ! b))"
    and alt: "map fst B2 = t # bs' \<and> bh2 = bh1 \<and> s2 = sequence l \<or>
              t = length bh1 \<and> bs' = map fst B2 \<and> entries (data (bh2 ! t)) = \<lparr>head = None, tail = None\<rparr>"
    using T by blast+
  have t: "t < length bh2" "t \<noteq> c" "t \<notin> fst ` set B1" "t \<notin> set bs'"
    using seq2 dll_bound [OF seq2, of t] by (auto simp: dll_def)
  obtain ts B2' where lay: "bs' = map fst B2'" "cells B2 = ts @ cells B2'" "set B2' \<subseteq> set B2"
    and t_ok: "dll eh1 (entries (data (bh2 ! t))) ts"
    and t_cont: "\<And>e. e \<in> set ts \<Longrightarrow> container (data (?eh ! e)) = Some t"
    and t_frq: "\<And>e. e \<in> set ts \<Longrightarrow> freq (data (?bh ! t)) = ?f + 1"
  proof -
    from alt show ?thesis
    proof
      assume a: "map fst B2 = t # bs' \<and> bh2 = bh1 \<and> s2 = sequence l"
      then obtain ts B2' where B2: "B2 = (t, ts) # B2'" "bs' = map fst B2'"
        by (cases B2) auto
      have tb: "bucket_ok ?eh ?bh (t, ts)"
        using bok [of "(t, ts)"] by (simp add: B B2)
      have disj: "set ts \<inter> set es = {}"
        using dB(2) by (auto simp: B B2)
      have "dll eh1 (entries (data (?bh ! t))) ts"
      proof (rule dll_frame)
        show "dll ?eh (entries (data (?bh ! t))) ts"
          using tb by (simp add: bucket_ok_def)
        show "length ?eh \<le> length eh1"
          using len1 by simp
        show "eh1 ! a = ?eh ! a" if "a \<in> set ts" for a
          using that disj by (intro frame1) (auto simp: es)
      qed
      moreover have "entries (data (bh2 ! t)) = entries (data (?bh ! t))"
        using a t(2) c_len by (simp add: bh1_def entries_set_entries)
      moreover have "freq (data (?bh ! t)) = ?f + 1"
        using ft a by (simp add: bh1_def)
      ultimately show ?thesis
        using tb B2 by (intro that [of B2' ts]) (auto simp: bucket_ok_def)
    next
      assume a: "t = length bh1 \<and> bs' = map fst B2 \<and> entries (data (bh2 ! t)) = \<lparr>head = None, tail = None\<rparr>"
      then show ?thesis
        by (intro that [of B2 "[]"]) (auto simp: dll_Nil)
    qed
  qed
  have cB: "cells B = cells B1 @ es1 @ n # es2 @ ts @ cells B2'"
    by (simp add: B es lay(2))
  have t_old: "t \<notin> fst ` set B2'"
    using t(4) lay(1) by simp
  \<comment> \<open>the entry joins the list of the target bucket\<close>
  have n_ts: "n \<notin> set ts" "n \<notin> set es1" "n \<notin> set es2"
    using dB(2) by (auto simp: cB)
  obtain eh2 L2 where an: "addNode eh1 (entries (data (bh2 ! t))) (Some n) = Some (Some n, eh2, L2)"
    and L2: "dll eh2 L2 (ts @ [n])" and len2e: "length eh2 = length eh1"
    and data2: "\<And>x. data (eh2 ! x) = data (eh1 ! x)"
    and frame2: "\<And>x. x \<noteq> n \<Longrightarrow> x \<notin> set ts \<Longrightarrow> eh2 ! x = eh1 ! x"
    using addNode_dll [OF t_ok, of n] n_len len1 n_ts(1) by auto
  define bh3 where "bh3 = set_entries bh2 t L2"
  have seq3: "dll bh3 s2 (map fst B1 @ c # t # map fst B2')"
    using seq2 by (simp add: bh3_def dll_set_entries lay(1))
  \<comment> \<open>the bucket it left is unlinked when it is empty and not the first\<close>
  have hdr_c: "entries (data (bh3 ! c)) = L1"
    using t c_len old2 [of c] by (simp add: bh3_def bh1_def entries_set_entries)
  have frq_c: "freq (data (bh3 ! c)) = ?f"
    using c_len old2 [of c] by (simp add: bh3_def bh1_def)
  obtain bh4 s4 cs where D:
    "touch_drop bh3 s2 (Some c) c = Some (bh4, s4) \<and> dll bh4 s4 (map fst B1 @ cs @ t # map fst B2') \<and>
     (\<forall>x. data (bh4 ! x) = data (bh3 ! x)) \<and> length bh4 = length bh3 \<and>
     (cs = [] \<and> isEmpty (entries (data (bh3 ! c))) \<and> freq (data (bh3 ! c)) > 1 \<or>
      cs = [c] \<and> \<not> (isEmpty (entries (data (bh3 ! c))) \<and> freq (data (bh3 ! c)) > 1))"
    using touch_drop_spec [OF seq3] by (elim exE) (rule that)
  have dr: "touch_drop bh3 s2 (Some c) c = Some (bh4, s4)"
    and seq4: "dll bh4 s4 (map fst B1 @ cs @ t # map fst B2')"
    and data4: "\<And>x. data (bh4 ! x) = data (bh3 ! x)"
    using D by blast+
  have cs: "cs = [] \<and> es1 @ es2 = [] \<and> ?f > 1 \<or> cs = [c]"
    using D dll_isEmpty [OF L1] by (auto simp: hdr_c frq_c)
  define Bc where "Bc = (if cs = [] then [] else [(c, es1 @ es2)])"
  have Bc: "map fst Bc = cs" "cells Bc = es1 @ es2" "set Bc \<subseteq> {(c, es1 @ es2)}"
    using cs by (auto simp: Bc_def)
  define l' where "l' = l\<lparr>sequence := s4, eheap := set_container eh2 n (Some t), bheap := bh4\<rparr>"
  define B' where "B' = B1 @ Bc @ (t, ts @ [n]) # B2'"
  have run: "touch l (Some n) = Some l'"
    using rm tg an dr cont n_len c_len t(1)
    by (simp add: touch_unfold deref_def bh1_def bh3_def l'_def)
  \<comment> \<open>what the new heaps hold\<close>
  have frq_old: "\<And>b. b < length ?bh \<Longrightarrow> freq (data (bh4 ! b)) = freq (data (?bh ! b))"
    using old2 by (simp add: data4 bh3_def bh1_def)
  have frq_t: "freq (data (bh4 ! t)) = ?f + 1"
    using ft by (simp add: data4 bh3_def bh1_def)
  have hdr_old: "\<And>b. b < length ?bh \<Longrightarrow> b \<noteq> c \<Longrightarrow> b \<noteq> t \<Longrightarrow>
      entries (data (bh4 ! b)) = entries (data (?bh ! b))"
    using old2 t(1) c_len by (simp add: data4 bh3_def bh1_def entries_set_entries)
  have hdr_t: "entries (data (bh4 ! t)) = L2"
    using t(1) by (simp add: data4 bh3_def entries_set_entries)
  have hdr_c4: "entries (data (bh4 ! c)) = L1"
    by (simp add: data4 hdr_c)
  have n_len2: "n < length eh2"
    using n_len len1 len2e by simp
  have cont': "\<And>x. container (data (eheap l' ! x)) = (if x = n then Some t else container (data (?eh ! x)))"
    using n_len2 by (simp add: l'_def container_set_container data2 data1)
  have kv': "\<And>x. key (data (eheap l' ! x)) = key (data (?eh ! x)) \<and>
      value (data (eheap l' ! x)) = value (data (?eh ! x))"
    by (simp add: l'_def data2 data1)
  have same: "\<And>y. y \<noteq> n \<Longrightarrow> y \<notin> set es1 \<Longrightarrow> y \<notin> set es2 \<Longrightarrow> y \<notin> set ts \<Longrightarrow>
      eheap l' ! y = ?eh ! y"
    by (simp add: l'_def set_container_other frame2 frame1)
  have cb: "c \<notin> fst ` set B1" "c \<notin> fst ` set B2"
    using dB(1) by (auto simp: B)
  \<comment> \<open>the new layout\<close>
  have cB': "cells B' = cells B1 @ es1 @ es2 @ ts @ n # cells B2'"
    by (simp add: B'_def Bc(2))
  have dB': "distinct (cells B')" "set (cells B') = set (cells B)"
    using dB(2) by (auto simp: cB cB')
  have "dll (bheap l') (sequence l') (map fst B')"
    using seq4 by (simp add: l'_def B'_def Bc(1))
  moreover have "bucket_ok (eheap l') (bheap l') x" if x: "x \<in> set B'" for x
  proof -
    consider "x = (t, ts @ [n])" | "x = (c, es1 @ es2)" | "x \<in> set B1" | "x \<in> set B2'"
      using x Bc(3) by (auto simp: B'_def)
    then show ?thesis
    proof cases
      case 1
      have "dll (eheap l') L2 (ts @ [n])"
        using L2 by (rule dll_links) (simp_all add: l'_def)
      then show ?thesis
        using t_cont n_ts(1) by (auto simp: 1 bucket_ok_def l'_def hdr_t cont' [unfolded l'_def, simplified])
    next
      case 2
      have "dll eh2 L1 (es1 @ es2)"
      proof (rule dll_frame [OF L1])
        show "length eh1 \<le> length eh2" by (simp add: len2e)
        show "eh2 ! a = eh1 ! a" if "a \<in> set (es1 @ es2)" for a
          using that dB(2) by (intro frame2) (auto simp: cB)
      qed
      then have "dll (eheap l') L1 (es1 @ es2)"
        by (rule dll_links) (simp_all add: l'_def)
      then show ?thesis
        using c_cont n_ts by (auto simp: 2 bucket_ok_def l'_def hdr_c4 es cont' [unfolded l'_def, simplified])
    next
      case 3
      obtain b xs where bx: "x = (b, xs)" by (cases x)
      have xB: "(b, xs) \<in> set B" using 3 bx by (simp add: B)
      have bin: "b \<in> fst ` set B1"
        using 3 bx by (metis fst_conv imageI)
      have b: "b \<noteq> c" "b \<noteq> t" "b < length ?bh"
        using bin cb(1) t(3) old_len [of b] by (auto simp: B)
      have xs: "\<And>y. y \<in> set xs \<Longrightarrow> y \<in> set (cells B1)"
        using 3 bx by (auto dest: in_cells)
      show ?thesis unfolding bx
      proof (rule bucket_ok_frame [OF bok [OF xB]])
        show "length ?eh \<le> length (eheap l')" by (simp add: l'_def len2e len1)
        show "eheap l' ! e = ?eh ! e" if "e \<in> set xs" for e
          using xs [OF that] dB(2) by (intro same) (auto simp: cB)
        show "entries (data (bheap l' ! b)) = entries (data (?bh ! b))"
          using b by (simp add: l'_def hdr_old)
      qed
    next
      case 4
      obtain b xs where bx: "x = (b, xs)" by (cases x)
      have xB: "(b, xs) \<in> set B" using 4 bx lay(3) by (auto simp: B)
      have bin: "b \<in> fst ` set B2'" "b \<in> fst ` set B2"
        using 4 bx lay(3) by (metis fst_conv imageI subsetD)+
      have b: "b \<noteq> c" "b \<noteq> t" "b < length ?bh"
        using bin cb(2) t_old old_len [of b] by (auto simp: B)
      have xs: "\<And>y. y \<in> set xs \<Longrightarrow> y \<in> set (cells B2')"
        using 4 bx by (auto dest: in_cells)
      show ?thesis unfolding bx
      proof (rule bucket_ok_frame [OF bok [OF xB]])
        show "length ?eh \<le> length (eheap l')" by (simp add: l'_def len2e len1)
        show "eheap l' ! e = ?eh ! e" if "e \<in> set xs" for e
          using xs [OF that] dB(2) by (intro same) (auto simp: cB)
        show "entries (data (bheap l' ! b)) = entries (data (?bh ! b))"
          using b by (simp add: l'_def hdr_old)
      qed
    qed
  qed
  moreover have "indexed (index l') (eheap l') (cells B')"
  proof (rule indexed_perm)
    show "indexed (index l') ?eh (cells B)"
      using w by (simp add: wf_def l'_def)
    show "\<And>x. key (data (eheap l' ! x)) = key (data (?eh ! x))"
      by (simp add: kv')
    show "set (cells B') = set (cells B)" "distinct (cells B')"
      by (simp_all add: dB')
  qed
  ultimately have wf_most: "dll (bheap l') (sequence l') (map fst B')"
    "\<forall>x \<in> set B'. bucket_ok (eheap l') (bheap l') x" "indexed (index l') (eheap l') (cells B')"
    by blast+
  \<comment> \<open>the frequencies still increase\<close>
  let ?new = "\<lambda>b. freq (data (bh4 ! b))" and ?old = "\<lambda>b. freq (data (?bh ! b))"
  have sm: "\<And>a. a \<in> fst ` set B1 \<Longrightarrow> ?old a < ?f"
    "\<And>a b. a \<in> fst ` set B1 \<Longrightarrow> b \<in> fst ` set B2 \<Longrightarrow> ?old a < ?old b"
    using sorted_mid [OF srt] by auto
  have bs'_sub: "set bs' \<subseteq> fst ` set B2"
    using alt by (metis list.set_map set_subset_Cons subset_refl)
  have s1: "sorted_wrt (<) (map ?old (map fst B1))" and s2: "sorted_wrt (<) (map ?old (map fst B2))"
    using srt by (simp_all add: sorted_wrt_append)
  have s2': "sorted_wrt (<) (map ?old bs')"
    using alt s2 by auto
  have oldB: "\<And>a. a \<in> fst ` set B1 \<Longrightarrow> a < length ?bh" "\<And>a. a \<in> fst ` set B2 \<Longrightarrow> a < length ?bh"
    using old_len by (simp_all add: B image_Un)
  have G1: "sorted_wrt (<) (map ?new (map fst B1))"
    using s1 by (rule sorted_wrt_map_cong) (simp add: frq_old oldB(1))
  have G2: "sorted_wrt (<) (map ?new bs')"
    using s2' by (rule sorted_wrt_map_cong) (use oldB(2) bs'_sub in \<open>simp add: frq_old subsetD\<close>)
  have G3: "\<And>a. a \<in> fst ` set B1 \<Longrightarrow> ?new a < ?f"
    using sm(1) by (simp add: frq_old oldB(1))
  have G4: "\<And>b. b \<in> set bs' \<Longrightarrow> ?f + 1 < ?new b"
  proof -
    fix b assume b: "b \<in> set bs'"
    then have "b < length ?bh" using bs'_sub oldB(2) [of b] by blast
    then show "?f + 1 < ?new b" using gt2 [OF b] by (simp add: frq_old bh1_def)
  qed
  have G5: "?new c = ?f" "?new t = ?f + 1"
    using frq_old [OF c_len] frq_t by blast+
  have "sorted_wrt (<) (map ?new (map fst B1 @ cs @ t # bs'))"
    using cs G1 G2 G3 G4 G5 by (fastforce simp: sorted_wrt_append)
  moreover have "?new (hd (map fst B1 @ cs @ t # bs')) = 1"
  proof (cases B1)
    case Nil
    then have "?f = 1" using asc by (simp add: ascending_def)
    then show ?thesis using cs G5 Nil by auto
  next
    case (Cons x xs)
    then have "?old (fst x) = 1" "fst x < length ?bh"
      using asc oldB(1) [of "fst x"] by (simp_all add: ascending_def)
    then show ?thesis using Cons by (simp add: frq_old)
  qed
  ultimately have "ascending (bheap l') (map fst B')"
    by (simp add: ascending_def l'_def B'_def Bc(1) lay(1))
  then have wf': "wf l' B'"
    using wf_most by (simp add: wf_def B'_def)
  \<comment> \<open>the ranking\<close>
  let ?k = "fst (entry l n)" and ?v = "fst (snd (entry l n))"
  note home = cells_home
  have ent_old: "entry l' y = entry l y" if y: "y \<in> set (cells B)" "y \<noteq> n" for y
  proof -
    obtain b xs where bx: "(b, xs) \<in> set B" "y \<in> set xs"
      using home [OF y(1)] by blast
    have "container (data (?eh ! y)) = Some b"
      using bok [OF bx(1)] bx(2) by (simp add: bucket_ok_def)
    moreover have "b < length ?bh"
      using old_len [of b] bx(1) by (metis fst_conv imageI)
    ultimately show ?thesis
      using y(2) frq_old [of b] by (simp add: entry_def Let_def cont' kv') (simp add: l'_def)
  qed
  have ent_n: "snd (snd (entry l n)) = ?f" "entry l' n = (?k, ?v, ?f + 1)"
    using cont frq_t by (simp_all add: entry_def Let_def cont' kv') (simp add: l'_def)
  have eqm: "map (entry l') ys = map (entry l) ys" if "set ys \<subseteq> set (cells B)" "n \<notin> set ys" for ys
    using that ent_old by (intro map_cong [OF refl]) auto
  have F1: "snd (snd (entry l y)) \<le> ?f + 1" if y: "y \<in> set (cells B1)" for y
  proof -
    obtain b xs where bx: "(b, xs) \<in> set B1" "y \<in> set xs"
      using home [OF y] by blast
    have "snd (snd (entry l y)) = ?old b"
      using entry_freq [OF bok [of "(b, xs)"] bx(2)] bx(1) by (simp add: B)
    moreover have "?old b < ?f"
      using sm(1) [of b] bx(1) by (metis fst_conv imageI)
    ultimately show ?thesis by simp
  qed
  have F2: "snd (snd (entry l y)) \<le> ?f + 1" if "y \<in> set es1 \<union> set es2" for y
    using entry_freq [OF bok [of "(c, es)"], of y] that by (auto simp: B es)
  have F3: "snd (snd (entry l y)) \<le> ?f + 1" if "y \<in> set ts" for y
    using t_cont [OF that] t_frq [OF that] by (simp add: entry_def Let_def)
  have F4: "?f + 1 < snd (snd (entry l y))" if y: "y \<in> set (cells B2')" for y
  proof -
    obtain b xs where bx: "(b, xs) \<in> set B2'" "y \<in> set xs"
      using home [OF y] by blast
    have "(b, xs) \<in> set B" using bx(1) lay(3) by (auto simp: B)
    then have "snd (snd (entry l y)) = ?old b"
      using entry_freq [OF bok [of "(b, xs)"] bx(2)] by simp
    moreover have "b \<in> set bs'"
      using bx(1) lay(1) by (metis fst_conv imageI list.set_map)
    then have "?f + 1 < ?old b"
      using gt2 [of b] by (simp add: bh1_def)
    ultimately show ?thesis by simp
  qed
  let ?L = "map (entry l) (cells B1 @ es1 @ es2 @ ts)" and ?R = "map (entry l) (cells B2')"
  have "distinct (map fst (flat l B))"
    using w by (simp add: wf_def indexed_def flat_def comp_def)
  then have "without (fst (entry l n)) (map (entry l) (cells B1 @ es1) @ entry l n # map (entry l) (es2 @ ts @ cells B2'))
      = map (entry l) (cells B1 @ es1) @ map (entry l) (es2 @ ts @ cells B2')"
    by (intro without_mid) (simp add: flat_def cB)
  then have wo: "without ?k (flat l B) = ?L @ ?R"
    by (simp add: flat_def cB)
  have "promote (?k, ?v, ?f + 1) (?L @ ?R) = ?L @ (?k, ?v, ?f + 1) # ?R"
    using F1 F2 F3 F4 by (intro promote_split) auto
  moreover have "map (entry l') (cells B1 @ es1 @ es2 @ ts) = ?L"
    using dB(2) by (intro eqm) (auto simp: cB)
  moreover have "map (entry l') (cells B2') = ?R"
    using dB(2) by (intro eqm) (auto simp: cB)
  moreover have "flat l' B' = map (entry l') (cells B1 @ es1 @ es2 @ ts) @ entry l' n # map (entry l') (cells B2')"
    by (simp add: flat_def cB')
  ultimately have "flat l' B' = promote (?k, ?v, snd (snd (entry l n)) + 1) (without ?k (flat l B))"
    using wo by (simp add: ent_n)
  moreover have "capacity l' = capacity l" "index l' = index l"
    by (simp_all add: l'_def)
  moreover have "head (sequence l') = head (sequence l)"
  proof -
    have "hd (map fst B1 @ cs @ t # map fst B2') = hd (map fst B1 @ c # map fst B2)"
    proof (cases B1)
      case Nil
      then have "?f = 1" using asc by (simp add: ascending_def)
      then show ?thesis using cs Nil by auto
    next
      case (Cons x xs)
      then show ?thesis by simp
    qed
    then show ?thesis
      using dll_head [OF seq4] dll_head [OF seq]
      by (cases B1; cases cs) (simp_all add: l'_def)
  qed
  ultimately show ?thesis
    using run wf' dB'(2) kv' by blast
qed

section \<open>The operations refine the operations on rankings\<close>

lemma set_value_simps [simp]:
  "length (set_value eh n v) = length eh"
  "next (set_value eh n v ! x) = next (eh ! x)"
  "prev (set_value eh n v ! x) = prev (eh ! x)"
  "key (data (set_value eh n v ! x)) = key (data (eh ! x))"
  "container (data (set_value eh n v ! x)) = container (data (eh ! x))"
  by (cases "n < length eh"; auto simp: set_value_def nth_list_update list_update_beyond)+

lemma value_set_value:
  "n < length eh \<Longrightarrow> value (data (set_value eh n v ! x)) = (if x = n then v else value (data (eh ! x)))"
  by (auto simp: set_value_def nth_list_update)

lemma wf_lookup:
  assumes "wf l B" "Mapping.lookup (index l) k = Some p"
  shows "\<exists>e. p = Some e \<and> e \<in> set (cells B) \<and> fst (entry l e) = k"
  using assms unfolding wf_def indexed_def by auto

lemma map_of_flat:
  assumes "wf l B"
  shows "map_of (flat l B) k =
    (case Mapping.lookup (index l) k of None \<Rightarrow> None | Some p \<Rightarrow> Some (snd (entry l (the p))))"
proof (cases "Mapping.lookup (index l) k")
  case None
  have nk: "\<And>e. e \<in> set (cells B) \<Longrightarrow> key (data (eheap l ! e)) \<noteq> k"
    using assms None unfolding wf_def indexed_def by (metis option.distinct(1))
  have "k \<notin> fst ` set (flat l B)"
  proof
    assume "k \<in> fst ` set (flat l B)"
    then obtain e where "e \<in> set (cells B)" "key (data (eheap l ! e)) = k"
      by (auto simp: flat_def)
    then show False using nk by blast
  qed
  then show ?thesis using None by (simp add: map_of_eq_None_iff)
next
  case (Some p)
  obtain e where e: "p = Some e" "e \<in> set (cells B)" "fst (entry l e) = k"
    using wf_lookup [OF assms Some] by blast
  have "distinct (map fst (flat l B))"
    using assms by (simp add: wf_def indexed_def flat_def comp_def)
  moreover have "(k, snd (entry l e)) = entry l e"
    using e(3) by (simp add: prod_eq_iff)
  then have "(k, snd (entry l e)) \<in> set (flat l B)"
    using e(2) by (simp add: flat_def)
  ultimately have "map_of (flat l B) k = Some (snd (entry l e))"
    by (rule map_of_is_SomeI)
  then show ?thesis using Some e by simp
qed


lemma ranked_length: "ranked l xs \<Longrightarrow> Size l = int (length xs)"
  by (auto simp: ranked_def wf_Size flat_def)

lemma New_ranked:
  assumes "New cap = Inr l"
  shows "ranked l []"
  using wf_New [OF assms] unfolding ranked_def by blast

lemma Get_ranked:
  assumes "ranked l xs"
  shows "\<exists>l'. Get l k = Some (fst (rank_get k xs), l') \<and> ranked l' (snd (rank_get k xs)) \<and>
           capacity l' = capacity l \<and> head (sequence l') = head (sequence l)"
proof -
  obtain B where B: "wf l B" "flat l B = xs"
    using assms by (auto simp: ranked_def)
  show ?thesis
  proof (cases "Mapping.lookup (index l) k")
    case None
    then have "map_of xs k = None"
      using map_of_flat [OF B(1), of k] B(2) by simp
    then show ?thesis
      using None assms by (simp add: Get_def rank_get_def)
  next
    case (Some p)
    obtain e where e: "p = Some e" "e \<in> set (cells B)" "fst (entry l e) = k"
      using wf_lookup [OF B(1) Some] by blast
    have m: "map_of xs k = Some (snd (entry l e))"
      using map_of_flat [OF B(1), of k] B(2) Some e(1) by simp
    obtain l' B' where t: "touch l (Some e) = Some l'" "wf l' B'"
      "flat l' B' = promote (fst (entry l e), fst (snd (entry l e)), snd (snd (entry l e)) + 1)
                          (without (fst (entry l e)) (flat l B))"
      "capacity l' = capacity l" "set (cells B') = set (cells B)"
      "\<And>x. value (data (eheap l' ! x)) = value (data (eheap l ! x))"
      "head (sequence l') = head (sequence l)"
      using touch_wf [OF B(1) e(2)] by blast
    have "e < length (eheap l')"
      using wf_cells_bound [OF t(2), of e] t(5) e(2) by simp
    then have "Get l k = Some (Inr (value (data (eheap l ! e))), l')"
      using Some e(1) t(1,6) by (simp add: Get_def deref_def)
    moreover have "rank_get k xs = (Inr (value (data (eheap l ! e))), flat l' B')"
      using m e(3) t(3) B(2) by (simp add: rank_get_def split: prod.splits) (simp add: entry_def Let_def)
    ultimately show ?thesis
      using t(2,4,7) by (auto simp: ranked_def)
  qed
qed

lemma GetKeyFrequency_ranked:
  assumes "ranked l xs"
  shows "GetKeyFrequency l k = Some (rank_freq k xs)"
proof -
  obtain B where B: "wf l B" "flat l B = xs"
    using assms by (auto simp: ranked_def)
  show ?thesis
  proof (cases "Mapping.lookup (index l) k")
    case None
    then have "map_of xs k = None"
      using map_of_flat [OF B(1), of k] B(2) by simp
    then show ?thesis
      using None by (simp add: GetKeyFrequency_def rank_freq_def)
  next
    case (Some p)
    obtain e where e: "p = Some e" "e \<in> set (cells B)" "fst (entry l e) = k"
      using wf_lookup [OF B(1) Some] by blast
    have m: "map_of xs k = Some (snd (entry l e))"
      using map_of_flat [OF B(1), of k] B(2) Some e(1) by simp
    obtain b es where b: "(b, es) \<in> set B" "e \<in> set es"
      using cells_home [OF e(2)] by blast
    have bk: "bucket_ok (eheap l) (bheap l) (b, es)"
      using B(1) b(1) by (auto simp: wf_def)
    then have c: "container (data (eheap l ! e)) = Some b"
      using b(2) by (simp add: bucket_ok_def)
    have "b < length (bheap l)"
      using B(1) b(1) dll_bound [of "bheap l" "sequence l" "map fst B" b]
      by (metis fst_conv imageI list.set_map wf_def)
    moreover have "e < length (eheap l)"
      using wf_cells_bound [OF B(1) e(2)] .
    ultimately have "GetKeyFrequency l k = Some (Inr (freq (data (bheap l ! b))))"
      using Some e(1) c by (simp add: GetKeyFrequency_def deref_def)
    moreover have "rank_freq k xs = Inr (freq (data (bheap l ! b)))"
      using m entry_freq [OF bk b(2)] by (auto simp: rank_freq_def split: prod.splits)
    ultimately show ?thesis by simp
  qed
qed

lemma set_value_wf:
  assumes w: "wf l B" and n: "n \<in> set (cells B)"
  shows "wf (l\<lparr>eheap := set_value (eheap l) n v\<rparr>) B \<and>
         flat (l\<lparr>eheap := set_value (eheap l) n v\<rparr>) B = map (revalue (fst (entry l n)) v) (flat l B)"
proof -
  let ?l' = "l\<lparr>eheap := set_value (eheap l) n v\<rparr>"
  have n_len: "n < length (eheap l)"
    using wf_cells_bound [OF w n] .
  have "bucket_ok (eheap ?l') (bheap ?l') x" if "x \<in> set B" for x
  proof -
    obtain b es where x: "x = (b, es)" by (cases x)
    have "bucket_ok (eheap l) (bheap l) (b, es)"
      using w that x by (auto simp: wf_def)
    then have d: "dll (eheap l) (entries (data (bheap l ! b))) es"
      and c: "\<forall>e \<in> set es. container (data (eheap l ! e)) = Some b"
      by (simp_all add: bucket_ok_def)
    have "dll (eheap ?l') (entries (data (bheap l ! b))) es"
      using d by (rule dll_links) simp_all
    then show ?thesis
      using c by (simp add: x bucket_ok_def)
  qed
  moreover have "indexed (index ?l') (eheap ?l') (cells B)"
  proof (rule indexed_perm)
    show "indexed (index ?l') (eheap l) (cells B)"
      using w by (simp add: wf_def)
    show "\<And>x. key (data (eheap ?l' ! x)) = key (data (eheap l ! x))"
      by simp
    show "set (cells B) = set (cells B)" by simp
    show "distinct (cells B)" using w by (rule wf_cells_distinct)
  qed
  ultimately have "wf ?l' B"
    using w by (simp add: wf_def)
  moreover have "entry ?l' y = revalue (fst (entry l n)) v (entry l y)" if y: "y \<in> set (cells B)" for y
  proof (cases "y = n")
    case True
    then show ?thesis
      using n_len by (simp add: entry_def Let_def revalue_def value_set_value split: option.splits)
  next
    case False
    have "inj_on (\<lambda>e. key (data (eheap l ! e))) (set (cells B))"
      using w by (simp add: wf_def indexed_def distinct_map)
    then have "key (data (eheap l ! y)) \<noteq> key (data (eheap l ! n))"
      using False y n by (auto simp: inj_on_def)
    then show ?thesis
      using False n_len by (simp add: entry_def Let_def revalue_def value_set_value split: option.splits)
  qed
  then have "flat ?l' B = map (revalue (fst (entry l n)) v) (flat l B)"
    by (simp add: flat_def)
  ultimately show ?thesis by simp
qed

lemma revalue_promote:
  assumes "k \<notin> fst ` set xs"
  shows "map (revalue k v) (promote (k, v0, f) xs) = promote (k, v, f) xs"
proof -
  have id: "map (revalue k v) ys = ys" if "set ys \<subseteq> set xs" for ys
  proof (rule map_idI)
    fix y assume "y \<in> set ys"
    then have "fst y \<noteq> k" using that assms by (metis imageI subsetD)
    then show "revalue k v y = y" by (simp add: revalue_def)
  qed
  have "map (revalue k v) (takeWhile P xs) = takeWhile P xs" for P
    by (rule id) (meson set_takeWhileD subsetI)
  moreover have "map (revalue k v) (dropWhile P xs) = dropWhile P xs" for P
    by (rule id) (meson set_dropWhileD subsetI)
  ultimately show ?thesis
    by (simp add: promote_def revalue_def)
qed

lemma without_keys: "k \<notin> fst ` set (without k xs)"
  by (auto simp: without_def)

lemma evict_none:
  assumes w: "wf l B" and e: "cells B = []"
  shows "evict l = None"
proof -
  have "path next (bheap l) (head (sequence l)) (map fst B) None"
    using w by (simp add: wf_def dll_def)
  moreover have "isEmpty (entries (data (bheap l ! b)))" if bb: "b \<in> set (map fst B)" for b
  proof -
    obtain es where x: "(b, es) \<in> set B" using bb by fastforce
    then have "es = []" using e by (auto simp: cells_def)
    moreover have "bucket_ok (eheap l) (bheap l) (b, es)"
      using w x by (auto simp: wf_def)
    ultimately show ?thesis
      by (simp add: bucket_ok_def dll_Nil isEmpty_def)
  qed
  ultimately have "evict_scan (bheap l) (head (sequence l)) = None"
    using evict_scan_nil [of "bheap l" "head (sequence l)" "map fst B"] by blast
  then show ?thesis by (simp add: evict_def)
qed


lemma Put_present:
  "Mapping.lookup (index l) k = Some n \<Longrightarrow>
   Put l k v = touch l n \<bind> (\<lambda>l. deref (eheap l) n \<bind>
     (\<lambda>na. Some (l\<lparr>eheap := set_value (eheap l) na v\<rparr>)))"
  by (simp add: Put_def set_value_def)

lemma Put_ranked:
  assumes "ranked l xs"
  shows "case rank_put (capacity l) k v xs of
           None \<Rightarrow> Put l k v = None
         | Some xs' \<Rightarrow> (\<exists>l'. Put l k v = Some l' \<and> ranked l' xs' \<and> capacity l' = capacity l \<and>
             head (sequence l') = head (sequence l))"
proof -
  obtain B where B: "wf l B" "flat l B = xs"
    using assms by (auto simp: ranked_def)
  show ?thesis
  proof (cases "Mapping.lookup (index l) k")
    case (Some p)
    obtain e where e: "p = Some e" "e \<in> set (cells B)" "fst (entry l e) = k"
      using wf_lookup [OF B(1) Some] by blast
    have m: "map_of xs k = Some (snd (entry l e))"
      using map_of_flat [OF B(1), of k] B(2) Some e(1) by simp
    obtain l1 B1 where t: "touch l (Some e) = Some l1" "wf l1 B1"
      "flat l1 B1 = promote (fst (entry l e), fst (snd (entry l e)), snd (snd (entry l e)) + 1)
                          (without (fst (entry l e)) (flat l B))"
      "capacity l1 = capacity l" "set (cells B1) = set (cells B)"
      "\<And>x. key (data (eheap l1 ! x)) = key (data (eheap l ! x))"
      "head (sequence l1) = head (sequence l)"
      using touch_wf [OF B(1) e(2)] by blast
    let ?l2 = "l1\<lparr>eheap := set_value (eheap l1) e v\<rparr>"
    have e1: "e \<in> set (cells B1)" using t(5) e(2) by simp
    have "e < length (eheap l1)"
      using wf_cells_bound [OF t(2) e1] .
    then have run: "Put l k v = Some ?l2"
      using Some e(1) t(1) by (simp add: Put_present deref_def)
    have k1: "fst (entry l1 e) = k"
      using e(3) t(6) by simp
    have "wf ?l2 B1" and "flat ?l2 B1 = map (revalue k v) (flat l1 B1)"
      using set_value_wf [OF t(2) e1, of v] k1 by simp_all
    moreover have "map (revalue k v) (flat l1 B1) = promote (k, v, snd (snd (entry l e)) + 1) (without k xs)"
      unfolding t(3) e(3) B(2) by (rule revalue_promote) (rule without_keys)
    ultimately have "ranked ?l2 (promote (k, v, snd (snd (entry l e)) + 1) (without k xs))"
      by (auto simp: ranked_def)
    moreover have "rank_put (capacity l) k v xs = Some (promote (k, v, snd (snd (entry l e)) + 1) (without k xs))"
      using m by (simp add: rank_put_def split: prod.splits)
    ultimately show ?thesis
      using run t(4,7) by simp
  next
    case None
    then have m: "map_of xs k = None"
      using map_of_flat [OF B(1), of k] B(2) by simp
    have sz: "Size l = int (length xs)"
      using assms by (rule ranked_length)
    have len: "length xs = length (cells B)"
      using B(2) by (auto simp: flat_def)
    show ?thesis
    proof (cases "int (length xs) + 1 > capacity l")
      case False
      obtain l' B' where i: "insert_new l k v = Some l'" "wf l' B'"
        "flat l' B' = promote (k, v, 1) (flat l B)" "capacity l' = capacity l"
        "sequence l' = sequence l"
        using insert_new_wf [OF B(1) None, of v] by blast
      have "Put l k v = Some l'"
        using False sz i(1) by (simp add: Put_absent [OF None] Capacity_def)
      moreover have "rank_put (capacity l) k v xs = Some (promote (k, v, 1) xs)"
        using m False by (simp add: rank_put_def)
      ultimately show ?thesis
        using i(2,3,4,5) B(2) by (auto simp: ranked_def)
    next
      case True
      show ?thesis
      proof (cases xs)
        case Nil
        then have "evict l = None"
          using evict_none [OF B(1)] len by simp
        then have "Put l k v = None"
          using True sz by (simp add: Put_absent [OF None] Capacity_def)
        then show ?thesis
          using m True Nil by (simp add: rank_put_def)
      next
        case (Cons x xs')
        then have ne: "cells B \<noteq> []" using len by auto
        obtain l1 B1 where ev: "evict l = Some l1" "wf l1 B1" "flat l1 B1 = tl (flat l B)"
          "capacity l1 = capacity l" "index l1 = Mapping.delete (fst (hd (flat l B))) (index l)"
          "sequence l1 = sequence l"
          using evict_wf [OF B(1) ne] by blast
        have None1: "Mapping.lookup (index l1) k = None"
          using None by (simp add: ev(5) lookup_delete_if)
        obtain l' B' where i: "insert_new l1 k v = Some l'" "wf l' B'"
          "flat l' B' = promote (k, v, 1) (flat l1 B1)" "capacity l' = capacity l1"
          "sequence l' = sequence l1"
          using insert_new_wf [OF ev(2) None1, of v] by blast
        have "Put l k v = Some l'"
          using True sz ev(1) i(1) by (simp add: Put_absent [OF None] Capacity_def)
        moreover have "rank_put (capacity l) k v xs = Some (promote (k, v, 1) xs')"
          using m True Cons by (simp add: rank_put_def)
        ultimately show ?thesis
          using i(2,3,4,5) ev(3,4,6) B(2) Cons by (auto simp: ranked_def)
      qed
    qed
  qed
qed

lemma feed_append:
  "feed y (xs @ ys) st = (if fst (feed y xs st) then feed y ys (snd (feed y xs st)) else feed y xs st)"
  by (induction xs arbitrary: st) (auto simp: Let_def split: prod.splits)

lemma all_entries_path:
  assumes "path prev (eheap l) p ys None"
  shows "all_entries l yield p st =
    Some (fst (feed yield (map (\<lambda>e. (key (data (eheap l ! e)), value (data (eheap l ! e)))) ys) st),
          snd (feed yield (map (\<lambda>e. (key (data (eheap l ! e)), value (data (eheap l ! e)))) ys) st), l)"
  using assms
proof (induction ys arbitrary: p st)
  case Nil
  then show ?case by (subst all_entries.simps) simp
next
  case (Cons e ys)
  then show ?case
    by (subst all_entries.simps) (auto simp: deref_def Let_def split: prod.splits)
qed

lemma all_buckets_path:
  assumes "path prev (bheap l) p (map fst Bs) None"
    and "\<And>b es. (b, es) \<in> set Bs \<Longrightarrow> path prev (eheap l) (tail (entries (data (bheap l ! b)))) (rev es) None"
  shows "all_buckets l yield p st =
    Some (snd (feed yield (concat (map (\<lambda>x. map (\<lambda>e. (key (data (eheap l ! e)), value (data (eheap l ! e)))) (rev (snd x))) Bs)) st), l)"
  using assms
proof (induction Bs arbitrary: p st)
  case Nil
  then show ?case by (subst all_buckets.simps) simp
next
  case (Cons x Bs)
  obtain b es where x: "x = (b, es)" by (cases x)
  have p: "p = Some b" "b < length (bheap l)" "path prev (bheap l) (prev (bheap l ! b)) (map fst Bs) None"
    using Cons.prems(1) by (simp_all add: x)
  have e: "path prev (eheap l) (tail (entries (data (bheap l ! b)))) (rev es) None"
    using Cons.prems(2) [of b es] by (simp add: x)
  have IH: "\<And>st. all_buckets l yield (prev (bheap l ! b)) st =
    Some (snd (feed yield (concat (map (\<lambda>x. map (\<lambda>e. (key (data (eheap l ! e)), value (data (eheap l ! e)))) (rev (snd x))) Bs)) st), l)"
    using Cons.IH [OF p(3)] Cons.prems(2) by simp
  show ?case
    by (subst all_buckets.simps)
       (simp add: p deref_def all_entries_path [OF e] IH x feed_append)
qed

lemma feed_collect: "feed collect xs acc = (True, acc @ xs)"
  by (induction xs arbitrary: acc) (simp_all add: collect_def)

lemma feed_collect_upto: "snd (feed (collect_upto n) xs acc) = acc @ take (max 1 (n - length acc)) xs"
proof (induction xs arbitrary: acc)
  case Nil
  then show ?case by simp
next
  case (Cons x xs)
  show ?case
  proof (cases "Suc (length acc) < n")
    case True
    then have "max 1 (n - length acc) = Suc (n - Suc (length acc))" "max 1 (n - Suc (length acc)) = n - Suc (length acc)"
      by auto
    then show ?thesis
      using True Cons.IH [of "acc @ [x]"] by (simp add: collect_upto_def)
  next
    case False
    then have "max 1 (n - length acc) = 1" by auto
    then show ?thesis
      using False by (simp add: collect_upto_def)
  qed
qed

lemma All_seq_ranked:
  assumes "ranked l xs"
  shows "All_seq l yield st = Some (snd (feed yield (rank_all xs) st), l)"
proof -
  obtain B where B: "wf l B" "flat l B = xs"
    using assms by (auto simp: ranked_def)
  let ?kv = "\<lambda>e. (key (data (eheap l ! e)), value (data (eheap l ! e)))"
  have "path prev (bheap l) (tail (sequence l)) (map fst (rev B)) None"
    using B(1) by (simp add: wf_def dll_def rev_map)
  moreover have "path prev (eheap l) (tail (entries (data (bheap l ! b)))) (rev es) None"
    if "(b, es) \<in> set (rev B)" for b es
    using B(1) that by (auto simp: wf_def bucket_ok_def dll_def)
  ultimately have "All_seq l yield st =
      Some (snd (feed yield (concat (map (\<lambda>x. map ?kv (rev (snd x))) (rev B))) st), l)"
    unfolding All_seq_def by (rule all_buckets_path)
  moreover have "concat (map (\<lambda>x. map ?kv (rev (snd x))) (rev B)) = rev (map ?kv (cells B))"
    by (induction B) (simp_all add: rev_map)
  moreover have "rank_all xs = rev (map ?kv (cells B))"
    by (simp add: rank_all_def B(2) [symmetric] flat_def entry_def Let_def comp_def)
  ultimately show ?thesis by simp
qed

section \<open>What the operations never write\<close>

lemma touch_capacity: "touch l n = Some l' \<Longrightarrow> capacity l' = capacity l"
  unfolding touch_def Let_def
  by (auto split: Option.bind_splits prod.splits if_splits)

lemma evict_capacity: "evict l = Some l' \<Longrightarrow> capacity l' = capacity l"
  unfolding evict_def Let_def
  by (auto split: Option.bind_splits prod.splits if_splits)

lemma Put_capacity: "Put l k v = Some l' \<Longrightarrow> Capacity l' = Capacity l"
  unfolding Put_def Let_def Capacity_def
  by (auto split: Option.bind_splits prod.splits if_splits option.splits dest: touch_capacity evict_capacity)

lemma Get_capacity: "Get l k = Some (r, l') \<Longrightarrow> Capacity l' = Capacity l"
  unfolding Get_def Capacity_def
  by (auto split: Option.bind_splits option.splits dest: touch_capacity)


lemma all_entries_cache: "all_entries l y p st = Some r \<Longrightarrow> snd (snd r) = l"
  by (induction l y p st r rule: all_entries.raw_induct [rotated 1, consumes 1])
     (auto split: if_splits Option.bind_splits prod.splits)

lemma all_buckets_cache: "all_buckets l y p st = Some r \<Longrightarrow> snd r = l"
  by (induction l y p st r rule: all_buckets.raw_induct [rotated 1, consumes 1])
     (auto split: if_splits Option.bind_splits prod.splits dest!: all_entries_cache)

lemma All_seq_cache: "All_seq l y st = Some (st', l') \<Longrightarrow> l' = l"
  unfolding All_seq_def by (drule all_buckets_cache) simp

section \<open>Rankings\<close>

lemma promote_decomp: "\<exists>L R. promote x ys = L @ x # R \<and> ys = L @ R"
  unfolding promote_def
  by (intro exI [of _ "takeWhile (\<lambda>y. snd (snd y) \<le> snd (snd x)) ys"]
            exI [of _ "dropWhile (\<lambda>y. snd (snd y) \<le> snd (snd x)) ys"]) simp

lemma set_promote [simp]: "set (promote x ys) = insert x (set ys)"
proof -
  obtain L R where "promote x ys = L @ x # R" "ys = L @ R"
    using promote_decomp by blast
  then show ?thesis by auto
qed

lemma length_promote [simp]: "length (promote x ys) = Suc (length ys)"
proof -
  obtain L R where "promote x ys = L @ x # R" "ys = L @ R"
    using promote_decomp by blast
  then show ?thesis by simp
qed

lemma distinct_promote:
  "distinct (map fst (promote x ys)) \<longleftrightarrow> fst x \<notin> fst ` set ys \<and> distinct (map fst ys)"
proof -
  obtain L R where "promote x ys = L @ x # R" "ys = L @ R"
    using promote_decomp by blast
  then show ?thesis by auto
qed

lemma map_of_mid:
  "fst x \<notin> fst ` set L \<Longrightarrow>
   map_of (L @ x # R) k = (if k = fst x then Some (snd x) else map_of (L @ R) k)"
  by (induction L) auto

lemma map_of_promote:
  assumes "fst x \<notin> fst ` set ys"
  shows "map_of (promote x ys) k = (if k = fst x then Some (snd x) else map_of ys k)"
proof -
  obtain L R where d: "promote x ys = L @ x # R" "ys = L @ R"
    using promote_decomp by blast
  then have "fst x \<notin> fst ` set L"
    using assms by auto
  then have "map_of (L @ x # R) k = (if k = fst x then Some (snd x) else map_of (L @ R) k)"
    by (rule map_of_mid)
  then show ?thesis
    using d by simp
qed

lemma set_without [simp]: "set (without k xs) = {y \<in> set xs. fst y \<noteq> k}"
  by (auto simp: without_def)

lemma map_of_without: "map_of (without k xs) k' = (if k' = k then None else map_of xs k')"
  by (induction xs) (auto simp: without_def)

lemma distinct_without: "distinct (map fst xs) \<Longrightarrow> distinct (map fst (without k xs))"
  by (simp add: without_def distinct_map_filter)

lemma length_without:
  "distinct (map fst xs) \<Longrightarrow> k \<in> fst ` set xs \<Longrightarrow> Suc (length (without k xs)) = length xs"
proof (induction xs)
  case Nil
  then show ?case by simp
next
  case (Cons x xs)
  show ?case
  proof (cases "fst x = k")
    case True
    then have "k \<notin> fst ` set xs" using Cons.prems(1) by simp
    then have "\<forall>y \<in> set xs. fst y \<noteq> k" by (metis imageI)
    then have "filter (\<lambda>y. fst y \<noteq> k) xs = xs" by (simp add: filter_id_conv)
    then show ?thesis using True by (simp add: without_def)
  next
    case False
    then show ?thesis using Cons by (auto simp: without_def)
  qed
qed

lemma map_of_tl:
  "distinct (map fst xs) \<Longrightarrow> xs \<noteq> [] \<Longrightarrow>
   map_of (tl xs) k = (if k = fst (hd xs) then None else map_of xs k)"
  by (cases xs) (auto simp: map_of_eq_None_iff)

lemma ranked_distinct: "ranked l xs \<Longrightarrow> distinct (map fst xs)"
  by (auto simp: ranked_def wf_def indexed_def flat_def comp_def)

section \<open>The claims\<close>

text \<open>C9. Construction: a negative capacity panics and no cache is returned; without a
  capacity argument the capacity is \<open>DefaultCapacity = 5\<close>; a successful construction
  returns an empty cache (\<open>Size = 0\<close>) whose \<open>Capacity\<close> is the configured value, and no
  operation changes the capacity afterwards (\<open>Put\<close>, \<open>Get\<close> and the iterator return a
  cache of the same capacity; \<open>Size\<close>, \<open>Capacity\<close> and \<open>GetKeyFrequency\<close> return no
  cache at all).\<close>

theorem C9_construction:
  fixes l :: "('k, 'v) cacheImpl"
  shows "(c < 0 \<longrightarrow> (New [c] :: error + ('k, 'v) cacheImpl) = Inl (Panic ''negative capacity'')) \<and>
   (\<exists>l :: ('k, 'v) cacheImpl. New [] = Inr l \<and> Capacity l = 5 \<and> Size l = 0) \<and>
   (0 \<le> c \<longrightarrow> (\<exists>l :: ('k, 'v) cacheImpl. New [c] = Inr l \<and> Capacity l = c \<and> Size l = 0)) \<and>
   (\<forall>l'. Put l k v = Some l' \<longrightarrow> Capacity l' = Capacity l) \<and>
   (\<forall>r l'. Get l k = Some (r, l') \<longrightarrow> Capacity l' = Capacity l) \<and>
   (\<forall>st' l'. All_seq l yield st = Some (st', l') \<longrightarrow> Capacity l' = Capacity l)"
proof -
  have "c < 0 \<longrightarrow> (New [c] :: error + ('k, 'v) cacheImpl) = Inl (Panic ''negative capacity'')"
    by (simp add: New_def)
  moreover have "\<exists>l :: ('k, 'v) cacheImpl. New [] = Inr l \<and> Capacity l = 5 \<and> Size l = 0"
    by (simp add: New_def add_def new_node_def addNode_def deref_def Capacity_def Size_def
        DefaultCapacity_def)
  moreover have "0 \<le> c \<longrightarrow> (\<exists>l :: ('k, 'v) cacheImpl. New [c] = Inr l \<and> Capacity l = c \<and> Size l = 0)"
    by (simp add: New_def add_def new_node_def addNode_def deref_def Capacity_def Size_def)
  moreover have "\<forall>l'. Put l k v = Some l' \<longrightarrow> Capacity l' = Capacity l"
    by (blast dest: Put_capacity)
  moreover have "\<forall>r l'. Get l k = Some (r, l') \<longrightarrow> Capacity l' = Capacity l"
    by (blast dest: Get_capacity)
  moreover have "\<forall>st' l'. All_seq l yield st = Some (st', l') \<longrightarrow> Capacity l' = Capacity l"
    by (auto dest: All_seq_cache)
  ultimately show ?thesis by blast
qed

theorem C9_construction_witness:
  "(New [- 1] :: error + (nat, nat) cacheImpl) = Inl (Panic ''negative capacity'') \<and>
   (New [3] :: error + (nat, nat) cacheImpl) = Inr cache3 \<and> Capacity cache3 = 3 \<and> Size cache3 = 0 \<and>
   (\<exists>l1 l2 l3. Put cache3 1 10 = Some l1 \<and> Capacity l1 = 3 \<and>
      Get l1 1 = Some (Inr 10, l2) \<and> Capacity l2 = 3 \<and>
      All_seq l2 collect [] = Some ([(1, 10)], l3) \<and> Capacity l3 = 3)"
proof -
  let ?y = "collect :: nat \<Rightarrow> nat \<Rightarrow> (nat \<times> nat) list \<Rightarrow> bool \<times> (nat \<times> nat) list"
  have neg: "(New [- 1] :: error + (nat, nat) cacheImpl) = Inl (Panic ''negative capacity'')"
    using C9_construction [of "- 1" cache3 1 10 ?y "[]"] by simp
  have new: "(New [3] :: error + (nat, nat) cacheImpl) = Inr cache3" "Capacity cache3 = 3" "Size cache3 = 0"
    using C9_construction [of 3 cache3 1 10 ?y "[]"] by (auto simp: cache3_def)
  let ?l1 = "the (Put cache3 1 10)"
  let ?l2 = "snd (the (Get ?l1 1))"
  have p: "Put cache3 1 10 = Some ?l1"
    by code_simp
  have g: "Get ?l1 1 = Some (Inr 10, ?l2)"
    by code_simp
  have a: "All_seq ?l2 collect [] = Some ([(1, 10)], ?l2)"
    by code_simp
  have "Capacity ?l1 = 3"
    using C9_construction [of 0 cache3 1 10 ?y "[]"] p new(2) by simp
  moreover have "Capacity ?l2 = 3"
    using C9_construction [of 0 ?l1 1 10 ?y "[]"] g calculation by simp
  ultimately show ?thesis
    using neg new p g a by blast
qed

text \<open>C4. \<^verbatim>\<open>Put\<close> on a cache of capacity 0: the size 0 plus one exceeds the capacity, the
  eviction scan starts at the frequency-1 bucket, finds it empty, moves to its
  \<^verbatim>\<open>next\<close>, which is \<^verbatim>\<open>nil\<close>, and dereferences it. The call does not return.\<close>

theorem C4_put_capacity_zero:
  "\<exists>l :: ('k, 'v) cacheImpl. New [0] = Inr l \<and> Put l k v = None"
  by (simp add: New_def add_def new_node_def addNode_def deref_def Put_def Size_def Capacity_def
      evict_def evict_scan.simps isEmpty_def)

end
